theory Spec2Isabelle
  imports Main
begin

section \<open>The task-instance execution engine of ember-concurrency\<close>

text \<open>
  A shallow embedding of \<^verbatim>\<open>addon/-private/external/task-instance/state.js\<close>: the class
  \<^verbatim>\<open>TaskInstanceState\<close>. Every method becomes a function that takes the instance and returns
  the updated instance. What the engine calls outside itself (the delegate, the environment,
  the console, disposers, finalize callbacks, a thenable's \<^verbatim>\<open>then\<close>, the generator) is
  recorded, in call order, in the field \<open>events\<close>; what it hands to \<^verbatim>\<open>env.async\<close> waits in
  the field \<open>asyncQueue\<close> until the environment runs it on a later turn.

  Host functions (disposers, delegate methods, \<^verbatim>\<open>then\<close>) are opaque: a call is logged,
  returns normally, and does not call back into the same instance before it returns; so is
  the generator body while it takes a step. A finalize callback is a host function too, and
  it may call \<^verbatim>\<open>onFinalize\<close> of the instance that is calling it; this re-entrant call is
  followed, since \<^verbatim>\<open>runFinalizeCallbacks\<close> calls the callbacks while the instance is already
  finished and before it resets the list; other calls from inside a host function into the
  instance are not. The one host function whose failure the source handles itself, the
  handler under \<^verbatim>\<open>yieldableSymbol\<close>, either throws or returns. The global \<^verbatim>\<open>TASK_INSTANCE_STACK\<close> is visible to the generator body only and is
  left out. The index is a JavaScript number that only \<^verbatim>\<open>++\<close> changes; it is an integer
  here, without the limit of \<open>2\<^sup>5\<^sup>3\<close> beyond which \<^verbatim>\<open>++\<close> has no effect.
\<close>

subsection \<open>JavaScript values\<close>

datatype perform_type = PERFORM_TYPE_DEFAULT | PERFORM_TYPE_UNLINKED | PERFORM_TYPE_LINKED

datatype 'a call_result = Throws 'a | Returns 'a

text \<open>
  The values a generator can produce, as far as the engine looks at them: primitives, opaque
  functions \<open>JFun n\<close>, \<^verbatim>\<open>Error\<close> objects (name, message), and objects. Of an object the engine
  reads whether it is an instance of \<^verbatim>\<open>RawValue\<close>, and the properties \<^verbatim>\<open>value\<close>,
  \<^verbatim>\<open>__ec_cancel__\<close>, \<^verbatim>\<open>[yieldableSymbol]\<close> (absent, or what calling it does),
  \<^verbatim>\<open>then\<close> and \<^verbatim>\<open>_performType\<close>. Numbers are integers; the empty string, 0, \<^verbatim>\<open>false\<close>,
  \<^verbatim>\<open>null\<close> and \<^verbatim>\<open>undefined\<close> are the falsy values.
\<close>

text \<open>
  Modelled from the spec: \<^verbatim>\<open>RawValue\<close> and \<^verbatim>\<open>yieldableSymbol\<close> (imported from
  \<^verbatim>\<open>../../utils\<close>), the explicit raw-value wrapper with its property \<^verbatim>\<open>value\<close>, and the
  reserved key under which a value exposes its custom-suspension handler. In \<open>JObject\<close> they
  are the first, the second and the fourth argument; the third is \<^verbatim>\<open>__ec_cancel__\<close>, the fifth
  \<^verbatim>\<open>then\<close>, the sixth \<^verbatim>\<open>_performType\<close>.
\<close>

datatype jsval =
    JUndefined
  | JNull
  | JBool bool
  | JNum int
  | JStr string
  | JFun nat
  | JError string string
  | JObject bool jsval jsval "jsval call_result option" jsval "perform_type option"

definition TASK_CANCELATION_NAME :: string where
  "TASK_CANCELATION_NAME = ''TaskCancelation''"

text \<open>\<^verbatim>\<open>const CANCEL_RETURN_VALUE_SENTINEL = {}\<close>: an object without properties.\<close>

definition CANCEL_RETURN_VALUE_SENTINEL :: jsval where
  "CANCEL_RETURN_VALUE_SENTINEL = JObject False JUndefined JUndefined None JUndefined None"

text \<open>JavaScript truthiness, as \<^verbatim>\<open>!yieldedValue\<close> and \<^verbatim>\<open>e && ...\<close> test it.\<close>

fun truthy :: "jsval \<Rightarrow> bool" where
  "truthy JUndefined = False"
| "truthy JNull = False"
| "truthy (JBool b) = b"
| "truthy (JNum n) = (n \<noteq> 0)"
| "truthy (JStr s) = (s \<noteq> [])"
| "truthy (JFun f) = True"
| "truthy (JError n m) = True"
| "truthy (JObject r v c y t p) = True"

text \<open>\<^verbatim>\<open>v instanceof RawValue\<close>\<close>

fun instanceof_RawValue :: "jsval \<Rightarrow> bool" where
  "instanceof_RawValue (JObject r v c y t p) = r"
| "instanceof_RawValue _ = False"

text \<open>Property reads; a property that is not there reads as \<^verbatim>\<open>undefined\<close>.\<close>

fun prop_value :: "jsval \<Rightarrow> jsval" where
  "prop_value (JObject r v c y t p) = v"
| "prop_value _ = JUndefined"

fun prop_ec_cancel :: "jsval \<Rightarrow> jsval" where
  "prop_ec_cancel (JObject r v c y t p) = c"
| "prop_ec_cancel _ = JUndefined"

fun prop_yieldable :: "jsval \<Rightarrow> jsval call_result option" where
  "prop_yieldable (JObject r v c y t p) = y"
| "prop_yieldable _ = None"

fun prop_then :: "jsval \<Rightarrow> jsval" where
  "prop_then (JObject r v c y t p) = t"
| "prop_then _ = JUndefined"

fun prop_performType :: "jsval \<Rightarrow> perform_type option" where
  "prop_performType (JObject r v c y t p) = p"
| "prop_performType _ = None"

fun prop_name :: "jsval \<Rightarrow> string option" where
  "prop_name (JError n m) = Some n"
| "prop_name _ = None"

text \<open>\<^verbatim>\<open>typeof v === 'function'\<close>\<close>

fun is_function :: "jsval \<Rightarrow> bool" where
  "is_function (JFun f) = True"
| "is_function _ = False"

text \<open>\<^verbatim>\<open>export function didCancel(e) { return e && e.name === TASK_CANCELATION_NAME; }\<close>\<close>

definition didCancel :: "jsval \<Rightarrow> bool" where
  "didCancel e = (truthy e \<and> prop_name e = Some TASK_CANCELATION_NAME)"

subsection \<open>The instance\<close>

text \<open>
  Modelled from the spec: the constants that \<^verbatim>\<open>state.js\<close> imports from \<^verbatim>\<open>../../utils\<close>,
  \<^verbatim>\<open>./completion-states\<close> and \<^verbatim>\<open>./cancel-request\<close>: the four resume kinds, the three
  completion states and the two kinds of cancel request. Each is a value of its own.
\<close>

datatype resume = YIELDABLE_CONTINUE | YIELDABLE_THROW | YIELDABLE_RETURN | YIELDABLE_CANCEL

datatype completion = COMPLETION_SUCCESS | COMPLETION_ERROR | COMPLETION_CANCEL

datatype cancel_kind = CANCEL_KIND_EXPLICIT | CANCEL_KIND_YIELDED

text \<open>
  Modelled from the spec: \<^verbatim>\<open>CancelRequest\<close> (imported from \<^verbatim>\<open>./cancel-request\<close>), an
  immutable record of the kind and the optional reason; \<^verbatim>\<open>new CancelRequest(kind)\<close> has the
  reason \<^verbatim>\<open>undefined\<close>.
\<close>

datatype cancel_request = CancelRequest cancel_kind jsval

fun reason :: "cancel_request \<Rightarrow> jsval" where
  "reason (CancelRequest k r) = r"

text \<open>The object \<^verbatim>\<open>this.state\<close>; a completion state that is not set yet is \<open>None\<close>.\<close>

record instance_state =
  hasStarted :: bool
  isFinished :: bool
  isSuccessful :: bool
  isError :: bool
  isCanceled :: bool
  completionState :: "completion option"
  state_value :: jsval
  state_error :: jsval
  cancelReason :: "string option"

text \<open>
  Modelled from the spec: \<^verbatim>\<open>INITIAL_STATE\<close> (imported from \<^verbatim>\<open>./initial-state\<close>), the
  state of a new instance: every flag false, no completion state, no value and no error.
\<close>

definition INITIAL_STATE :: instance_state where
  "INITIAL_STATE = \<lparr> hasStarted = False, isFinished = False, isSuccessful = False,
     isError = False, isCanceled = False, completionState = None,
     state_value = JNull, state_error = JNull, cancelReason = None \<rparr>"

text \<open>A partial state object, as \<^verbatim>\<open>setState\<close> receives it: its properties in order.\<close>

datatype field =
    F_hasStarted bool
  | F_isFinished bool
  | F_isSuccessful bool
  | F_isError bool
  | F_isCanceled bool
  | F_completionState completion
  | F_value jsval
  | F_error jsval
  | F_cancelReason string

fun assign_field :: "instance_state \<Rightarrow> field \<Rightarrow> instance_state" where
  "assign_field st (F_hasStarted b) = st\<lparr>hasStarted := b\<rparr>"
| "assign_field st (F_isFinished b) = st\<lparr>isFinished := b\<rparr>"
| "assign_field st (F_isSuccessful b) = st\<lparr>isSuccessful := b\<rparr>"
| "assign_field st (F_isError b) = st\<lparr>isError := b\<rparr>"
| "assign_field st (F_isCanceled b) = st\<lparr>isCanceled := b\<rparr>"
| "assign_field st (F_completionState c) = st\<lparr>completionState := Some c\<rparr>"
| "assign_field st (F_value v) = st\<lparr>state_value := v\<rparr>"
| "assign_field st (F_error v) = st\<lparr>state_error := v\<rparr>"
| "assign_field st (F_cancelReason r) = st\<lparr>cancelReason := Some r\<rparr>"

text \<open>\<^verbatim>\<open>Object.assign(target, source)\<close>\<close>

definition Object_assign :: "instance_state \<Rightarrow> field list \<Rightarrow> instance_state" where
  "Object_assign st fs = foldl assign_field st fs"

text \<open>
  Modelled from the spec: \<^verbatim>\<open>GeneratorState\<close> (imported from \<^verbatim>\<open>../../generator-state\<close>),
  the resumable body. It has a flag \<^verbatim>\<open>done\<close> and a method
  \<^verbatim>\<open>step(resumeValue, resumeKind) -> {done, value, errored}\<close>, which reports the body's
  completion and its failure. The body is a parameter: any function from the resumption to
  what the body does next, which is to yield a value and wait, to return, or to throw.
\<close>

datatype body_step =
    Yield jsval "resume \<Rightarrow> jsval \<Rightarrow> body_step"
  | Return jsval
  | Throw jsval

record generator_state =
  gen_done :: bool
  gen_iterator :: "resume \<Rightarrow> jsval \<Rightarrow> body_step"

record step_result =
  sr_value :: jsval
  sr_done :: bool
  sr_errored :: bool

definition GeneratorState_step ::
  "generator_state \<Rightarrow> jsval \<Rightarrow> resume \<Rightarrow> step_result \<times> generator_state" where
  "GeneratorState_step g nextValue iteratorMethod =
     (case gen_iterator g iteratorMethod nextValue of
        Yield v k \<Rightarrow>
          (\<lparr> sr_value = v, sr_done = False, sr_errored = False \<rparr>, g\<lparr>gen_iterator := k\<rparr>)
      | Return v \<Rightarrow>
          (\<lparr> sr_value = v, sr_done = True, sr_errored = False \<rparr>, g\<lparr>gen_done := True\<rparr>)
      | Throw e \<Rightarrow>
          (\<lparr> sr_value = e, sr_done = True, sr_errored = True \<rparr>, g\<lparr>gen_done := True\<rparr>))"

text \<open>
  A finalize callback is a host function that only returns (\<open>HostCallback n\<close>), the closure
  that \<^verbatim>\<open>onYielded\<close> registers for a parent (identified by a number) and the parent's ticket,
  or a host function that calls back: \<open>Registering n cb\<close> is the function \<open>n\<close> that, the first
  time it is called, calls \<^verbatim>\<open>onFinalize(cb)\<close> on the instance that is calling it, and only
  returns on every later call.
\<close>

datatype finalize_callback =
    HostCallback nat
  | ResumeParent nat int
  | Registering nat finalize_callback

text \<open>What \<^verbatim>\<open>env.async\<close> was given: the two closures of the source.\<close>

datatype thunk = ProceedSyncThunk resume jsval | ReportUnhandledThunk

text \<open>
  The two places that call \<^verbatim>\<open>env.reportUncaughtRejection\<close>: the \<^verbatim>\<open>catch\<close> of
  \<^verbatim>\<open>invokeYieldable\<close>, and the closure of \<^verbatim>\<open>maybeThrowUnhandledTaskErrorLater\<close>.
\<close>

datatype report_site = AtInvokeYieldable | AtUnhandledTaskError

datatype event =
    Delegate_setState "field list"
  | Delegate_onStarted
  | Delegate_onSuccess
  | Delegate_onError jsval
  | Delegate_onCancel jsval
  | Delegate_getYieldContext
  | Env_reportUncaughtRejection report_site jsval
  | Env_defer
  | Defer_resolve jsval
  | Defer_reject jsval
  | Console_log string
  | Console_warn
  | Disposer_called nat jsval
  | FinalizeCallback_called finalize_callback
  | Parent_proceedChecked nat int resume jsval
  | Yieldable_called int
  | Then_called int
  | Generator_step jsval resume

record task_instance =
  generatorState :: generator_state
  formatCancelReason :: "jsval \<Rightarrow> string"
  globalDebuggingEnabled :: bool
  state :: instance_state
  index :: int
  disposers :: "nat list"
  finalizeCallbacks :: "finalize_callback list"
  performType :: perform_type
  debug :: bool
  cancelRequest :: "cancel_request option"
  has_defer :: bool
  asyncErrorsHandled :: bool
  expectsLinkedYield :: bool
  events :: "event list"
  asyncQueue :: "thunk list"

text \<open>
  The constructor. \<open>body\<close> is the generator the factory makes, \<open>fmt\<close> the delegate's
  \<^verbatim>\<open>formatCancelReason\<close>, \<open>gde\<close> what \<^verbatim>\<open>env.globalDebuggingEnabled()\<close> answers.
\<close>

definition new_TaskInstanceState ::
  "(resume \<Rightarrow> jsval \<Rightarrow> body_step) \<Rightarrow> (jsval \<Rightarrow> string) \<Rightarrow> bool \<Rightarrow> bool \<Rightarrow> perform_type
     \<Rightarrow> task_instance" where
  "new_TaskInstanceState body fmt gde dbg pt =
     \<lparr> generatorState = \<lparr> gen_done = False, gen_iterator = body \<rparr>,
       formatCancelReason = fmt,
       globalDebuggingEnabled = gde,
       state = INITIAL_STATE,
       index = 1,
       disposers = [],
       finalizeCallbacks = [],
       performType = pt,
       debug = dbg,
       cancelRequest = None,
       has_defer = False,
       asyncErrorsHandled = False,
       expectsLinkedYield = False,
       events = [],
       asyncQueue = [] \<rparr>"

text \<open>
  A method either returns, or throws with the instance as it was when the exception left it.
  The engine's own throw is the \<^verbatim>\<open>TypeError\<close> of reading \<^verbatim>\<open>this.cancelRequest.reason\<close>
  while \<^verbatim>\<open>cancelRequest\<close> is \<^verbatim>\<open>null\<close>.
\<close>

datatype outcome = Ok task_instance | Threw jsval task_instance

fun instance_of :: "outcome \<Rightarrow> task_instance" where
  "instance_of (Ok s) = s"
| "instance_of (Threw e s) = s"

fun and_then :: "outcome \<Rightarrow> (task_instance \<Rightarrow> outcome) \<Rightarrow> outcome" where
  "and_then (Ok s) f = f s"
| "and_then (Threw e s) f = Threw e s"

definition TypeError :: jsval where
  "TypeError = JError ''TypeError'' ''Cannot read properties of null''"

definition emit :: "event \<Rightarrow> task_instance \<Rightarrow> task_instance" where
  "emit e s = s\<lparr>events := events s @ [e]\<rparr>"

text \<open>\<^verbatim>\<open>env.async(fn)\<close>\<close>

definition env_async :: "thunk \<Rightarrow> task_instance \<Rightarrow> task_instance" where
  "env_async t s = s\<lparr>asyncQueue := asyncQueue s @ [t]\<rparr>"

subsection \<open>The methods of \<^verbatim>\<open>TaskInstanceState\<close>\<close>

text \<open>\<^verbatim>\<open>setState(state) { Object.assign(this.state, state); this.delegate.setState(state); }\<close>\<close>

definition setState :: "field list \<Rightarrow> task_instance \<Rightarrow> task_instance" where
  "setState fs s = emit (Delegate_setState fs) (s\<lparr>state := Object_assign (state s) fs\<rparr>)"

text \<open>
  \<^verbatim>\<open>advanceIndex(index) { if (this.index === index) { return ++this.index; } }\<close>:
  the new index, or \<^verbatim>\<open>undefined\<close>. The callers test the result for truthiness, and the
  number 0 is falsy.
\<close>

definition advanceIndex :: "int \<Rightarrow> task_instance \<Rightarrow> int option \<times> task_instance" where
  "advanceIndex i s =
     (if index s = i then (Some (index s + 1), s\<lparr>index := index s + 1\<rparr>) else (None, s))"

fun truthy_result :: "int option \<Rightarrow> bool" where
  "truthy_result None = False"
| "truthy_result (Some n) = (n \<noteq> 0)"

definition addDisposer :: "jsval \<Rightarrow> task_instance \<Rightarrow> task_instance" where
  "addDisposer maybeDisposer s =
     (case maybeDisposer of
        JFun d \<Rightarrow> s\<lparr>disposers := disposers s @ [d]\<rparr>
      | _ \<Rightarrow> s)"

definition dispose :: "jsval \<Rightarrow> task_instance \<Rightarrow> task_instance" where
  "dispose rsn s =
     (let ds = disposers s in
      if length ds = 0 then s
      else foldl (\<lambda>s' d. emit (Disposer_called d rsn) s') (s\<lparr>disposers := []\<rparr>) ds)"

definition requestCancel :: "cancel_request \<Rightarrow> task_instance \<Rightarrow> bool \<times> task_instance" where
  "requestCancel request s =
     (if cancelRequest s \<noteq> None \<or> isFinished (state s) then (False, s)
      else (True, s\<lparr>cancelRequest := Some request\<rparr>))"

definition proceedAsync :: "resume \<Rightarrow> jsval \<Rightarrow> task_instance \<Rightarrow> task_instance" where
  "proceedAsync yieldResumeType v s =
     env_async (ProceedSyncThunk yieldResumeType v) (snd (advanceIndex (index s) s))"

definition proceedWithCancelAsync :: "task_instance \<Rightarrow> task_instance" where
  "proceedWithCancelAsync s = proceedAsync YIELDABLE_RETURN CANCEL_RETURN_VALUE_SENTINEL s"

definition proceedWithSimpleValue :: "jsval \<Rightarrow> task_instance \<Rightarrow> task_instance" where
  "proceedWithSimpleValue yieldedValue s = proceedAsync YIELDABLE_CONTINUE yieldedValue s"

definition proceedChecked :: "int \<Rightarrow> resume \<Rightarrow> jsval \<Rightarrow> task_instance \<Rightarrow> task_instance" where
  "proceedChecked i yieldResumeType v s =
     (if isFinished (state s) then s
      else
        (case advanceIndex i s of (r, s1) \<Rightarrow>
           if \<not> truthy_result r then s1
           else if yieldResumeType = YIELDABLE_CANCEL then
             proceedWithCancelAsync
               (snd (requestCancel (CancelRequest CANCEL_KIND_YIELDED JUndefined) s1))
           else proceedAsync yieldResumeType v s1))"

definition maybeResolveDefer :: "task_instance \<Rightarrow> task_instance" where
  "maybeResolveDefer s =
     (if \<not> has_defer s \<or> \<not> isFinished (state s) then s
      else if completionState (state s) = Some COMPLETION_SUCCESS
        then emit (Defer_resolve (state_value (state s))) s
      else emit (Defer_reject (state_error (state s))) s)"

definition maybeThrowUnhandledTaskErrorLater :: "task_instance \<Rightarrow> task_instance" where
  "maybeThrowUnhandledTaskErrorLater s =
     (if \<not> asyncErrorsHandled s \<and> completionState (state s) = Some COMPLETION_ERROR
           \<and> \<not> didCancel (state_error (state s))
      then env_async ReportUnhandledThunk s
      else s)"

text \<open>
  \<^verbatim>\<open>onFinalize(callback) { this.finalizeCallbacks.push(callback); if (this.state.isFinished)
  { this.runFinalizeCallbacks(); } }\<close>, with the method \<^verbatim>\<open>runFinalizeCallbacks\<close> it calls as the
  argument \<open>rerun\<close>: \<^verbatim>\<open>onFinalize\<close>, the callbacks and \<^verbatim>\<open>runFinalizeCallbacks\<close> call one another.
\<close>

definition onFinalize_by ::
  "(task_instance \<Rightarrow> task_instance) \<Rightarrow> finalize_callback \<Rightarrow> task_instance \<Rightarrow> task_instance" where
  "onFinalize_by rerun callback s =
     (let s1 = s\<lparr>finalizeCallbacks := finalizeCallbacks s @ [callback]\<rparr> in
      if isFinished (state s1) then rerun s1 else s1)"

text \<open>Whether a host function has not been called by this instance yet.\<close>

definition first_call :: "task_instance \<Rightarrow> finalize_callback \<Rightarrow> bool" where
  "first_call s cb = (FinalizeCallback_called cb \<notin> set (events s))"

text \<open>
  Calling one finalize callback. The closure of \<^verbatim>\<open>onYielded\<close> resumes the parent according
  to this instance's completion state; a registering host function calls \<^verbatim>\<open>onFinalize\<close>.
\<close>

fun call_finalize_callback ::
  "(task_instance \<Rightarrow> task_instance) \<Rightarrow> task_instance \<Rightarrow> finalize_callback \<Rightarrow> task_instance" where
  "call_finalize_callback rerun s (HostCallback n) =
     emit (FinalizeCallback_called (HostCallback n)) s"
| "call_finalize_callback rerun s (ResumeParent p i) =
     (let s1 = emit (FinalizeCallback_called (ResumeParent p i)) s in
      case completionState (state s1) of
        Some COMPLETION_SUCCESS \<Rightarrow>
          emit (Parent_proceedChecked p i YIELDABLE_CONTINUE (state_value (state s1))) s1
      | Some COMPLETION_ERROR \<Rightarrow>
          emit (Parent_proceedChecked p i YIELDABLE_THROW (state_error (state s1))) s1
      | Some COMPLETION_CANCEL \<Rightarrow>
          emit (Parent_proceedChecked p i YIELDABLE_CANCEL JNull) s1
      | None \<Rightarrow> s1)"
| "call_finalize_callback rerun s (Registering n cb) =
     (let s1 = emit (FinalizeCallback_called (Registering n cb)) s in
      if first_call s (Registering n cb) then onFinalize_by rerun cb s1 else s1)"

text \<open>
  \<^verbatim>\<open>runFinalizeCallbacks() { this.finalizeCallbacks.forEach(cb => cb());
  this.finalizeCallbacks = []; this.maybeResolveDefer();
  this.maybeThrowUnhandledTaskErrorLater(); }\<close>, with the method a callback reaches through
  \<^verbatim>\<open>onFinalize\<close> as the argument \<open>rerun\<close>. \<^verbatim>\<open>forEach\<close> visits the elements the array had when
  the loop began, also when a callback appends to the array or the field is assigned a new
  array meanwhile; the nested call reads the field as it is then.
\<close>

definition runFinalizeCallbacks_by ::
  "(task_instance \<Rightarrow> task_instance) \<Rightarrow> task_instance \<Rightarrow> task_instance" where
  "runFinalizeCallbacks_by rerun s =
     maybeThrowUnhandledTaskErrorLater
       (maybeResolveDefer
          ((foldl (call_finalize_callback rerun) s (finalizeCallbacks s))
             \<lparr>finalizeCallbacks := []\<rparr>))"

text \<open>
  \<^verbatim>\<open>runFinalizeCallbacks\<close> is \<open>runFinalizeCallbacks_by\<close> applied to itself. The recursion ends
  because a nested call is made by a registering function on its first call only, and a
  function has one first call: \<open>registrations\<close> counts the calls of \<^verbatim>\<open>onFinalize\<close> that a
  callback, and the callbacks it registers, can make, and \<open>nesting\<close> adds them up over the
  callbacks of the list that have not been called yet; the calls nest no deeper.
  \<open>runFinalizeCallbacks_nested d\<close> follows the nested calls \<open>d\<close> levels deep, and
  \<^verbatim>\<open>runFinalizeCallbacks\<close> follows them \<open>nesting s\<close> levels deep. The lemma
  \<open>runFinalizeCallbacks_unfold\<close> below proves the equation of the source from this:
  \<open>runFinalizeCallbacks s = runFinalizeCallbacks_by runFinalizeCallbacks s\<close>.
\<close>

primrec runFinalizeCallbacks_nested :: "nat \<Rightarrow> task_instance \<Rightarrow> task_instance" where
  "runFinalizeCallbacks_nested 0 s = runFinalizeCallbacks_by (\<lambda>s'. s') s"
| "runFinalizeCallbacks_nested (Suc d) s =
     runFinalizeCallbacks_by (runFinalizeCallbacks_nested d) s"

fun registrations :: "finalize_callback \<Rightarrow> nat" where
  "registrations (HostCallback n) = 0"
| "registrations (ResumeParent p i) = 0"
| "registrations (Registering n cb) = Suc (registrations cb)"

definition waiting :: "event list \<Rightarrow> finalize_callback set \<Rightarrow> nat" where
  "waiting es cbs = sum registrations {cb \<in> cbs. FinalizeCallback_called cb \<notin> set es}"

definition nesting :: "task_instance \<Rightarrow> nat" where
  "nesting s = waiting (events s) (set (finalizeCallbacks s))"

definition runFinalizeCallbacks :: "task_instance \<Rightarrow> task_instance" where
  "runFinalizeCallbacks s = runFinalizeCallbacks_nested (nesting s) s"

definition onFinalize :: "finalize_callback \<Rightarrow> task_instance \<Rightarrow> task_instance" where
  "onFinalize callback s = onFinalize_by runFinalizeCallbacks callback s"

definition promise :: "task_instance \<Rightarrow> task_instance" where
  "promise s =
     (if \<not> has_defer s
      then maybeResolveDefer ((emit Env_defer s)\<lparr>has_defer := True, asyncErrorsHandled := True\<rparr>)
      else s)"

definition dispatchFinalizeEvents :: "completion option \<Rightarrow> task_instance \<Rightarrow> outcome" where
  "dispatchFinalizeEvents cs s =
     (case cs of
        Some COMPLETION_SUCCESS \<Rightarrow> Ok (emit Delegate_onSuccess s)
      | Some COMPLETION_ERROR \<Rightarrow> Ok (emit (Delegate_onError (state_error (state s))) s)
      | Some COMPLETION_CANCEL \<Rightarrow>
          (case cancelRequest s of
             None \<Rightarrow> Threw TypeError s
           | Some request \<Rightarrow> Ok (emit (Delegate_onCancel (reason request)) s))
      | None \<Rightarrow> Ok s)"

text \<open>\<^verbatim>\<open>state.completionState\<close> of a partial state object\<close>

fun field_completionState :: "field list \<Rightarrow> completion option" where
  "field_completionState [] = None"
| "field_completionState (F_completionState c # fs) =
     (case field_completionState fs of None \<Rightarrow> Some c | Some c' \<Rightarrow> Some c')"
| "field_completionState (f # fs) = field_completionState fs"

definition finalizeShared :: "field list \<Rightarrow> task_instance \<Rightarrow> outcome" where
  "finalizeShared fs s =
     (let s1 = s\<lparr>index := index s + 1\<rparr>;
          fs1 = fs @ [F_isFinished True];
          s2 = setState fs1 s1;
          s3 = runFinalizeCallbacks s2
      in dispatchFinalizeEvents (field_completionState fs1) s3)"

definition finalizeWithCancel :: "task_instance \<Rightarrow> outcome" where
  "finalizeWithCancel s =
     (case cancelRequest s of
        None \<Rightarrow> Threw TypeError s
      | Some request \<Rightarrow>
          (let reasonText = formatCancelReason s (reason request);
               s1 = (if debug s \<or> globalDebuggingEnabled s
                     then emit (Console_log reasonText) s else s);
               err = JError TASK_CANCELATION_NAME reasonText
           in finalizeShared
                [F_isCanceled True, F_completionState COMPLETION_CANCEL, F_error err,
                 F_cancelReason reasonText] s1))"

definition finalize :: "jsval \<Rightarrow> completion \<Rightarrow> task_instance \<Rightarrow> outcome" where
  "finalize v cs s =
     (if cancelRequest s \<noteq> None then finalizeWithCancel s
      else finalizeShared
        (F_completionState cs #
           (case cs of
              COMPLETION_SUCCESS \<Rightarrow> [F_isSuccessful True, F_value v]
            | COMPLETION_ERROR \<Rightarrow> [F_isError True, F_error v]
            | COMPLETION_CANCEL \<Rightarrow> [F_error v])) s)"

definition generatorStep :: "jsval \<Rightarrow> resume \<Rightarrow> task_instance \<Rightarrow> step_result \<times> task_instance" where
  "generatorStep nextValue iteratorMethod s =
     (case GeneratorState_step (generatorState s) nextValue iteratorMethod of (stepResult, g) \<Rightarrow>
        let s1 = emit (Generator_step nextValue iteratorMethod) (s\<lparr>generatorState := g\<rparr>);
            s2 = (if expectsLinkedYield s1 then
                    (let v = sr_value stepResult;
                         s' = (if \<not> truthy v \<or> prop_performType v \<noteq> Some PERFORM_TYPE_LINKED
                               then emit Console_warn s1 else s1)
                     in s'\<lparr>expectsLinkedYield := False\<rparr>)
                  else s1)
        in (stepResult, s2))"

text \<open>
  \<^verbatim>\<open>invokeYieldable\<close>: everything inside the \<^verbatim>\<open>try\<close>; a value without a handler cannot be
  called, which throws inside the \<^verbatim>\<open>try\<close> as well.
\<close>

definition invokeYieldable :: "jsval \<Rightarrow> task_instance \<Rightarrow> task_instance" where
  "invokeYieldable yieldedValue s =
     (let s1 = emit Delegate_getYieldContext s in
      case prop_yieldable yieldedValue of
        None \<Rightarrow> emit (Env_reportUncaughtRejection AtInvokeYieldable TypeError) s1
      | Some (Returns maybeDisposer) \<Rightarrow>
          addDisposer maybeDisposer (emit (Yieldable_called (index s1)) s1)
      | Some (Throws e) \<Rightarrow>
          emit (Env_reportUncaughtRejection AtInvokeYieldable e)
            (emit (Yieldable_called (index s1)) s1))"

definition handleYieldedUnknownThenable :: "jsval \<Rightarrow> task_instance \<Rightarrow> task_instance" where
  "handleYieldedUnknownThenable thenable s =
     (let resumeIndex = index s in emit (Then_called resumeIndex) s)"

definition handleYieldedValue :: "step_result \<Rightarrow> task_instance \<Rightarrow> task_instance" where
  "handleYieldedValue stepResult s =
     (let yieldedValue = sr_value stepResult in
      if \<not> truthy yieldedValue then proceedWithSimpleValue yieldedValue s
      else if instanceof_RawValue yieldedValue
        then proceedWithSimpleValue (prop_value yieldedValue) s
      else
        (let s1 = addDisposer (prop_ec_cancel yieldedValue) s in
         if prop_yieldable yieldedValue \<noteq> None then invokeYieldable yieldedValue s1
         else if is_function (prop_then yieldedValue)
           then handleYieldedUnknownThenable yieldedValue s1
         else proceedWithSimpleValue yieldedValue s1))"

definition handleResolvedContinueValue :: "resume \<Rightarrow> jsval \<Rightarrow> task_instance \<Rightarrow> outcome" where
  "handleResolvedContinueValue iteratorMethod resumeValue s =
     (let beforeIndex = index s in
      case generatorStep resumeValue iteratorMethod s of (stepResult, s1) \<Rightarrow>
        (case advanceIndex beforeIndex s1 of (r, s2) \<Rightarrow>
           if \<not> truthy_result r then Ok s2
           else if sr_errored stepResult
             then finalize (sr_value stepResult) COMPLETION_ERROR s2
           else Ok (handleYieldedValue stepResult s2)))"

definition handleResolvedReturnedValue :: "resume \<Rightarrow> jsval \<Rightarrow> task_instance \<Rightarrow> outcome" where
  "handleResolvedReturnedValue yieldResumeType v s =
     (case yieldResumeType of
        YIELDABLE_CONTINUE \<Rightarrow> finalize v COMPLETION_SUCCESS s
      | YIELDABLE_RETURN \<Rightarrow> finalize v COMPLETION_SUCCESS s
      | YIELDABLE_THROW \<Rightarrow> finalize v COMPLETION_ERROR s
      | YIELDABLE_CANCEL \<Rightarrow> Ok s)"

definition proceedSync :: "resume \<Rightarrow> jsval \<Rightarrow> task_instance \<Rightarrow> outcome" where
  "proceedSync yieldResumeType v s =
     (if isFinished (state s) then Ok s
      else
        (let s1 = dispose JUndefined s in
         if gen_done (generatorState s1) then handleResolvedReturnedValue yieldResumeType v s1
         else handleResolvedContinueValue yieldResumeType v s1))"

definition start :: "task_instance \<Rightarrow> outcome" where
  "start s =
     (if hasStarted (state s) \<or> cancelRequest s \<noteq> None then Ok s
      else and_then (proceedSync YIELDABLE_CONTINUE JUndefined (setState [F_hasStarted True] s))
             (\<lambda>s'. Ok (emit Delegate_onStarted s')))"

definition cancel :: "jsval \<Rightarrow> task_instance \<Rightarrow> outcome" where
  "cancel sourceCancelReason s =
     (case requestCancel (CancelRequest CANCEL_KIND_EXPLICIT sourceCancelReason) s of
        (accepted, s1) \<Rightarrow>
          if \<not> accepted then Ok s1
          else if hasStarted (state s1) then Ok (proceedWithCancelAsync s1)
          else finalizeWithCancel s1)"

text \<open>\<^verbatim>\<open>detectSelfCancelLoop\<close>: its body after the guard is commented out.\<close>

definition detectSelfCancelLoop :: "jsval \<Rightarrow> nat \<Rightarrow> task_instance \<Rightarrow> task_instance" where
  "detectSelfCancelLoop rsn parent s = (if performType s \<noteq> PERFORM_TYPE_DEFAULT then s else s)"

text \<open>
  \<^verbatim>\<open>onYielded(parent, resumeIndex)\<close>: the flag tells whether it returns the disposer
  closure; \<open>onYielded_disposer\<close> is that closure.
\<close>

definition onYielded :: "nat \<Rightarrow> int \<Rightarrow> task_instance \<Rightarrow> bool \<times> task_instance" where
  "onYielded parent resumeIndex s =
     (let s1 = onFinalize (ResumeParent parent resumeIndex) (s\<lparr>asyncErrorsHandled := True\<rparr>) in
      if performType s1 = PERFORM_TYPE_UNLINKED then (False, s1) else (True, s1))"

definition onYielded_disposer :: "nat \<Rightarrow> jsval \<Rightarrow> task_instance \<Rightarrow> outcome" where
  "onYielded_disposer parent rsn s = cancel JUndefined (detectSelfCancelLoop rsn parent s)"

subsection \<open>The environment's turns, and sequences of calls\<close>

text \<open>Running a closure that was given to \<^verbatim>\<open>env.async\<close>.\<close>

fun run_thunk :: "thunk \<Rightarrow> task_instance \<Rightarrow> outcome" where
  "run_thunk (ProceedSyncThunk yieldResumeType v) s = proceedSync yieldResumeType v s"
| "run_thunk ReportUnhandledThunk s =
     Ok (if \<not> asyncErrorsHandled s
         then emit (Env_reportUncaughtRejection AtUnhandledTaskError (state_error (state s))) s
         else s)"

text \<open>
  What can happen to an instance from outside: a call of one of its methods, or the
  environment running (once) the \<open>n\<close>-th closure waiting in the queue.
\<close>

datatype call =
    Call_start
  | Call_cancel jsval
  | Call_proceedChecked int resume jsval
  | Call_proceedSync resume jsval
  | Call_onFinalize finalize_callback
  | Call_promise
  | Call_onYielded nat int
  | Run_async nat

fun perform :: "call \<Rightarrow> task_instance \<Rightarrow> outcome" where
  "perform Call_start s = start s"
| "perform (Call_cancel r) s = cancel r s"
| "perform (Call_proceedChecked i k v) s = Ok (proceedChecked i k v s)"
| "perform (Call_proceedSync k v) s = proceedSync k v s"
| "perform (Call_onFinalize cb) s = Ok (onFinalize cb s)"
| "perform Call_promise s = Ok (promise s)"
| "perform (Call_onYielded p i) s = Ok (snd (onYielded p i s))"
| "perform (Run_async n) s =
     (if n < length (asyncQueue s)
      then run_thunk (asyncQueue s ! n)
             (s\<lparr>asyncQueue := take n (asyncQueue s) @ drop (Suc n) (asyncQueue s)\<rparr>)
      else Ok s)"

text \<open>An exception that escapes a call leaves the instance as it was when it was thrown.\<close>

definition exec :: "call \<Rightarrow> task_instance \<Rightarrow> task_instance" where
  "exec c s = instance_of (perform c s)"

fun run :: "call list \<Rightarrow> task_instance \<Rightarrow> task_instance" where
  "run [] s = s"
| "run (c # cs) s = run cs (exec c s)"

subsection \<open>Observations on runs\<close>

text \<open>Whether a method returned rather than threw.\<close>

fun returned :: "outcome \<Rightarrow> bool" where
  "returned (Ok s) = True"
| "returned (Threw e s) = False"

text \<open>A resumption attempt that presents the ticket \<open>t\<close>.\<close>

fun presents :: "int \<Rightarrow> call \<Rightarrow> bool" where
  "presents t (Call_proceedChecked i k v) = (i = t)"
| "presents t _ = False"

text \<open>
  How many of the attempts presenting the ticket \<open>t\<close> in a sequence of calls are honoured,
  that is, change the instance.
\<close>

fun honoured :: "int \<Rightarrow> call list \<Rightarrow> task_instance \<Rightarrow> nat" where
  "honoured t [] s = 0"
| "honoured t (c # cs) s =
     (if presents t c \<and> exec c s \<noteq> s then 1 else 0) + honoured t cs (exec c s)"

text \<open>
  What calling one finalize callback adds to the events when the callback only returns, as a
  registering function does on every call but its first.
\<close>

fun callback_events :: "instance_state \<Rightarrow> finalize_callback \<Rightarrow> event list" where
  "callback_events st (HostCallback n) = [FinalizeCallback_called (HostCallback n)]"
| "callback_events st (ResumeParent p i) =
     FinalizeCallback_called (ResumeParent p i) #
       (case completionState st of
          Some COMPLETION_SUCCESS \<Rightarrow> [Parent_proceedChecked p i YIELDABLE_CONTINUE (state_value st)]
        | Some COMPLETION_ERROR \<Rightarrow> [Parent_proceedChecked p i YIELDABLE_THROW (state_error st)]
        | Some COMPLETION_CANCEL \<Rightarrow> [Parent_proceedChecked p i YIELDABLE_CANCEL JNull]
        | None \<Rightarrow> [])"
| "callback_events st (Registering n cb) = [FinalizeCallback_called (Registering n cb)]"

text \<open>What \<^verbatim>\<open>maybeResolveDefer\<close> adds to the events.\<close>

definition defer_events :: "task_instance \<Rightarrow> event list" where
  "defer_events s =
     (if \<not> has_defer s \<or> \<not> isFinished (state s) then []
      else if completionState (state s) = Some COMPLETION_SUCCESS
        then [Defer_resolve (state_value (state s))]
      else [Defer_reject (state_error (state s))])"

text \<open>What \<^verbatim>\<open>maybeThrowUnhandledTaskErrorLater\<close> adds to the queue.\<close>

definition unhandled_thunks :: "task_instance \<Rightarrow> thunk list" where
  "unhandled_thunks s =
     (if \<not> asyncErrorsHandled s \<and> completionState (state s) = Some COMPLETION_ERROR
           \<and> \<not> didCancel (state_error (state s))
      then [ReportUnhandledThunk] else [])"

text \<open>
  The events that a run of the finalize callbacks can add: the calls of the callbacks, what
  the closures of \<^verbatim>\<open>onYielded\<close> tell a parent, and the settling of the deferred result.
\<close>

fun is_callback_event :: "event \<Rightarrow> bool" where
  "is_callback_event (FinalizeCallback_called cb) = True"
| "is_callback_event (Parent_proceedChecked p i k v) = True"
| "is_callback_event (Defer_resolve v) = True"
| "is_callback_event (Defer_reject e) = True"
| "is_callback_event _ = False"

text \<open>
  What a run of the finalize callbacks may change of an instance: the list of callbacks, the
  events by events of the kinds above, and the queue, by reports of an unhandled error only.
\<close>

definition reran :: "task_instance \<Rightarrow> task_instance \<Rightarrow> bool" where
  "reran s s' =
     (\<exists>es q.
        s' = s\<lparr>finalizeCallbacks := finalizeCallbacks s',
                events := events s @ es, asyncQueue := asyncQueue s @ q\<rparr>
        \<and> list_all is_callback_event es
        \<and> set q \<subseteq> {ReportUnhandledThunk}
        \<and> (if unhandled_thunks s = [] then q = [] else True))"

text \<open>What a run of the finalize callbacks adds to the events and to the queue.\<close>

definition rerun_events :: "task_instance \<Rightarrow> event list" where
  "rerun_events s = drop (length (events s)) (events (runFinalizeCallbacks s))"

definition rerun_thunks :: "task_instance \<Rightarrow> thunk list" where
  "rerun_thunks s = drop (length (asyncQueue s)) (asyncQueue (runFinalizeCallbacks s))"

text \<open>A callback that only returns: it does not call back into the instance.\<close>

fun inert :: "finalize_callback \<Rightarrow> bool" where
  "inert (Registering n cb) = False"
| "inert _ = True"

text \<open>
  The instance in \<^verbatim>\<open>finalizeShared\<close> just before \<^verbatim>\<open>runFinalizeCallbacks\<close>, and just before
  \<^verbatim>\<open>dispatchFinalizeEvents\<close>.
\<close>

definition finishing :: "field list \<Rightarrow> task_instance \<Rightarrow> task_instance" where
  "finishing fs s =
     s\<lparr>index := index s + 1,
       state := Object_assign (state s) (fs @ [F_isFinished True]),
       events := events s @ [Delegate_setState (fs @ [F_isFinished True])]\<rparr>"

definition finalized :: "field list \<Rightarrow> task_instance \<Rightarrow> task_instance" where
  "finalized fs s = runFinalizeCallbacks (finishing fs s)"

text \<open>The instance as \<^verbatim>\<open>finalizeWithCancel\<close> hands it to \<^verbatim>\<open>finalizeShared\<close>.\<close>

definition cancel_logged :: "cancel_request \<Rightarrow> task_instance \<Rightarrow> task_instance" where
  "cancel_logged request s =
     (if debug s \<or> globalDebuggingEnabled s
      then emit (Console_log (formatCancelReason s (reason request))) s else s)"

definition cancel_fields :: "cancel_request \<Rightarrow> task_instance \<Rightarrow> field list" where
  "cancel_fields request s =
     [F_isCanceled True, F_completionState COMPLETION_CANCEL,
      F_error (JError TASK_CANCELATION_NAME (formatCancelReason s (reason request))),
      F_cancelReason (formatCancelReason s (reason request))]"

text \<open>The terminal events: what \<^verbatim>\<open>dispatchFinalizeEvents\<close> tells the delegate.\<close>

fun is_terminal :: "event \<Rightarrow> bool" where
  "is_terminal Delegate_onSuccess = True"
| "is_terminal (Delegate_onError e) = True"
| "is_terminal (Delegate_onCancel r) = True"
| "is_terminal _ = False"

definition terminal_events :: "task_instance \<Rightarrow> event list" where
  "terminal_events s = filter is_terminal (events s)"

text \<open>Kinds of events, and the events of each kind in order.\<close>

fun is_callback_call :: "event \<Rightarrow> bool" where
  "is_callback_call (FinalizeCallback_called cb) = True"
| "is_callback_call _ = False"

fun is_unhandled_report :: "event \<Rightarrow> bool" where
  "is_unhandled_report (Env_reportUncaughtRejection AtUnhandledTaskError e) = True"
| "is_unhandled_report _ = False"

fun is_generator_step :: "event \<Rightarrow> bool" where
  "is_generator_step (Generator_step v k) = True"
| "is_generator_step _ = False"

definition callback_calls :: "task_instance \<Rightarrow> event list" where
  "callback_calls s = filter is_callback_call (events s)"

definition unhandled_reports :: "task_instance \<Rightarrow> event list" where
  "unhandled_reports s = filter is_unhandled_report (events s)"

definition body_steps :: "task_instance \<Rightarrow> event list" where
  "body_steps s = filter is_generator_step (events s)"

text \<open>An event that is no terminal event, no callback call and no unhandled-error report.\<close>

definition quiet :: "event \<Rightarrow> bool" where
  "quiet e = (\<not> is_terminal e \<and> \<not> is_callback_call e \<and> \<not> is_unhandled_report e)"

text \<open>What of an instance the summaries below depend on.\<close>

definition view ::
  "task_instance \<Rightarrow> bool \<times> bool \<times> finalize_callback list \<times> event list \<times> event list \<times> event list" where
  "view s = (isFinished (state s), asyncErrorsHandled s, finalizeCallbacks s,
             unhandled_reports s, callback_calls s, terminal_events s)"

text \<open>
  What a step of the engine does to an unfinished instance \<open>s\<close>: either it finalizes,
  running the callbacks and dispatching one terminal event, or it does neither.
\<close>

definition advanced :: "task_instance \<Rightarrow> task_instance \<Rightarrow> bool" where
  "advanced s s' =
     (asyncErrorsHandled s' = asyncErrorsHandled s
      \<and> unhandled_reports s' = unhandled_reports s
      \<and> finalizeCallbacks s' = (if isFinished (state s') then [] else finalizeCallbacks s)
      \<and> (if list_all inert (finalizeCallbacks s)
          then callback_calls s' =
                 callback_calls s @
                   (if isFinished (state s') then map FinalizeCallback_called (finalizeCallbacks s)
                    else [])
          else True)
      \<and> length (terminal_events s') =
          length (terminal_events s) + (if isFinished (state s') then 1 else 0))"

text \<open>The finalize callbacks that a sequence of calls registers, in order.\<close>

fun registered :: "call list \<Rightarrow> finalize_callback list" where
  "registered [] = []"
| "registered (Call_onFinalize cb # cs) = cb # registered cs"
| "registered (Call_onYielded p i # cs) = ResumeParent p i # registered cs"
| "registered (c # cs) = registered cs"

text \<open>What does not change once the instance is finished.\<close>

definition settled :: "task_instance \<Rightarrow> task_instance \<Rightarrow> bool" where
  "settled s s' =
     (isFinished (state s')
      \<and> (state s')\<lparr>hasStarted := True\<rparr> = (state s)\<lparr>hasStarted := True\<rparr>
      \<and> index s' = index s
      \<and> generatorState s' = generatorState s
      \<and> cancelRequest s' = cancelRequest s
      \<and> disposers s' = disposers s
      \<and> body_steps s' = body_steps s
      \<and> terminal_events s' = terminal_events s)"

text \<open>One call or turn on an unfinished instance.\<close>

definition progressed :: "call \<Rightarrow> task_instance \<Rightarrow> task_instance \<Rightarrow> bool" where
  "progressed c s s' =
     (length (terminal_events s') =
        length (terminal_events s) + (if isFinished (state s') then 1 else 0)
      \<and> finalizeCallbacks s' =
          (if isFinished (state s') then [] else finalizeCallbacks s @ registered [c])
      \<and> (if list_all inert (finalizeCallbacks s)
          then callback_calls s' =
                 callback_calls s @
                   (if isFinished (state s') then map FinalizeCallback_called (finalizeCallbacks s)
                    else [])
          else True)
      \<and> (if isFinished (state s') then registered [c] = [] else True)
      \<and> (if asyncErrorsHandled s
          then asyncErrorsHandled s' \<and> unhandled_reports s' = unhandled_reports s else True))"

text \<open>Every registered callback is either still in the list or has been called.\<close>

definition callbacks_accounted :: "call list \<Rightarrow> task_instance \<Rightarrow> bool" where
  "callbacks_accounted pre s =
     (callback_calls s @ map FinalizeCallback_called (finalizeCallbacks s) =
        map FinalizeCallback_called (registered pre)
      \<and> (if isFinished (state s) then finalizeCallbacks s = [] else callback_calls s = []))"

text \<open>
  The calls that reach an instance from outside: its public surface (\<^verbatim>\<open>start\<close>,
  \<^verbatim>\<open>cancel\<close>, the deferred result, \<^verbatim>\<open>onFinalize\<close>), \<^verbatim>\<open>onYielded\<close>, the turns of the
  environment, and \<^verbatim>\<open>proceedChecked\<close> with a ticket that the engine has handed out.
  \<^verbatim>\<open>proceedSync\<close> is not among them: the engine alone calls it, from \<^verbatim>\<open>start\<close> and from the
  closures it gives to \<^verbatim>\<open>env.async\<close>. Nor is the ticket 1: a ticket is the index read in
  \<^verbatim>\<open>handleYieldedUnknownThenable\<close> or \<^verbatim>\<open>invokeYieldable\<close>, after
  \<^verbatim>\<open>handleResolvedContinueValue\<close> has advanced the index, which starts at 1. The tickets
  handed out are those in the events, \<open>issued\<close>; \<open>ticket_one_never_issued\<close> below shows that 1
  is never among them.
\<close>

fun ticket_of :: "event \<Rightarrow> int list" where
  "ticket_of (Yieldable_called i) = [i]"
| "ticket_of (Then_called i) = [i]"
| "ticket_of _ = []"

definition issued :: "task_instance \<Rightarrow> int list" where
  "issued s = concat (map ticket_of (events s))"

fun lawful :: "call \<Rightarrow> bool" where
  "lawful (Call_proceedSync k v) = False"
| "lawful (Call_proceedChecked i k v) = (i \<noteq> 1)"
| "lawful _ = True"

text \<open>What the engine never takes back: that the instance has started, and its cancel request.\<close>

definition kept :: "task_instance \<Rightarrow> task_instance \<Rightarrow> bool" where
  "kept s s' =
     ((if hasStarted (state s) then hasStarted (state s') else True)
      \<and> (if cancelRequest s = None then True else cancelRequest s' = cancelRequest s))"

text \<open>An instance that has started or has a cancel request, and one that nothing has moved yet.\<close>

definition committed :: "task_instance \<Rightarrow> bool" where
  "committed s = (hasStarted (state s) \<or> cancelRequest s \<noteq> None)"

definition untouched :: "task_instance \<Rightarrow> bool" where
  "untouched s = (index s = 1 \<and> asyncQueue s = [] \<and> \<not> isFinished (state s))"

text \<open>An instance to try things on: its body yields 5, then returns what it is resumed with.\<close>

definition example_body :: "resume \<Rightarrow> jsval \<Rightarrow> body_step" where
  "example_body = (\<lambda>k v. Yield (JNum 5) (\<lambda>k' v'. Return v'))"

definition example_instance :: task_instance where
  "example_instance =
     new_TaskInstanceState example_body (\<lambda>r. ''canceled'') False False PERFORM_TYPE_DEFAULT"

text \<open>The same instance with a cancel request pending.\<close>

definition example_cancel_requested :: task_instance where
  "example_cancel_requested =
     example_instance\<lparr>cancelRequest := Some (CancelRequest CANCEL_KIND_EXPLICIT (JStr ''stop''))\<rparr>"

text \<open>
  A \<^verbatim>\<open>RawValue\<close> that wraps a thenable with a handler, and itself has a disposer, a handler
  and a \<^verbatim>\<open>then\<close>.
\<close>

definition example_raw :: jsval where
  "example_raw =
     JObject True (JObject False JUndefined (JFun 3) (Some (Returns (JFun 4))) (JFun 5) None)
       (JFun 7) (Some (Throws (JStr ''boom''))) (JFun 8) None"

text \<open>A value with a disposer whose handler throws.\<close>

definition example_throwing_yieldable :: jsval where
  "example_throwing_yieldable =
     JObject False JUndefined (JFun 9) (Some (Throws (JStr ''boom''))) JUndefined None"

definition yielded :: "jsval \<Rightarrow> step_result" where
  "yielded v = \<lparr> sr_value = v, sr_done = False, sr_errored = False \<rparr>"

text \<open>An instance whose body throws at once.\<close>

definition example_failing_body :: "resume \<Rightarrow> jsval \<Rightarrow> body_step" where
  "example_failing_body = (\<lambda>k v. Throw (JStr ''oops''))"

definition example_failing :: task_instance where
  "example_failing =
     new_TaskInstanceState example_failing_body (\<lambda>r. ''canceled'') False False PERFORM_TYPE_DEFAULT"

text \<open>The example instance run to its end, one that failed, and a sequence of calls.\<close>

definition example_finished :: task_instance where
  "example_finished = run [Call_start, Run_async 0, Run_async 0] example_instance"

definition example_calls :: "call list" where
  "example_calls =
     [Call_onFinalize (HostCallback 1), Call_start, Call_onFinalize (HostCallback 2),
      Run_async 0, Run_async 0, Call_onFinalize (HostCallback 3)]"

text \<open>
  A finalize callback that registers another one the first time it is called, and calls that
  register it before the example instance runs to its end.
\<close>

definition example_registering :: finalize_callback where
  "example_registering = Registering 1 (HostCallback 2)"

definition example_reentrant_calls :: "call list" where
  "example_reentrant_calls =
     [Call_onFinalize example_registering, Call_start, Run_async 0, Run_async 0]"

definition example_failed :: task_instance where
  "example_failed = run [Call_start] example_failing"

section \<open>Properties\<close>

subsection \<open>What the basic operations leave alone\<close>

lemmas basic_defs =
  setState_def emit_def env_async_def advanceIndex_def addDisposer_def dispose_def
  requestCancel_def proceedAsync_def proceedWithCancelAsync_def proceedWithSimpleValue_def
  proceedChecked_def maybeResolveDefer_def maybeThrowUnhandledTaskErrorLater_def
  runFinalizeCallbacks_by_def onFinalize_def onFinalize_by_def first_call_def promise_def
  dispatchFinalizeEvents_def finalizeShared_def finalizeWithCancel_def finalize_def generatorStep_def
  GeneratorState_step_def invokeYieldable_def handleYieldedUnknownThenable_def
  handleYieldedValue_def handleResolvedContinueValue_def handleResolvedReturnedValue_def
  proceedSync_def start_def cancel_def detectSelfCancelLoop_def onYielded_def
  onYielded_disposer_def exec_def Object_assign_def INITIAL_STATE_def
  new_TaskInstanceState_def didCancel_def TASK_CANCELATION_NAME_def
  CANCEL_RETURN_VALUE_SENTINEL_def TypeError_def Let_def

lemmas example_defs = example_instance_def example_body_def

lemma emit_fields [simp]:
  "generatorState (emit e s) = generatorState s"
  "formatCancelReason (emit e s) = formatCancelReason s"
  "globalDebuggingEnabled (emit e s) = globalDebuggingEnabled s"
  "state (emit e s) = state s"
  "disposers (emit e s) = disposers s"
  "finalizeCallbacks (emit e s) = finalizeCallbacks s"
  "performType (emit e s) = performType s"
  "debug (emit e s) = debug s"
  "cancelRequest (emit e s) = cancelRequest s"
  "has_defer (emit e s) = has_defer s"
  "asyncErrorsHandled (emit e s) = asyncErrorsHandled s"
  "expectsLinkedYield (emit e s) = expectsLinkedYield s"
  "events (emit e s) = events s @ [e]"
  "asyncQueue (emit e s) = asyncQueue s"
  by (simp_all add: emit_def)

lemma env_async_fields [simp]:
  "generatorState (env_async t s) = generatorState s"
  "formatCancelReason (env_async t s) = formatCancelReason s"
  "globalDebuggingEnabled (env_async t s) = globalDebuggingEnabled s"
  "state (env_async t s) = state s"
  "disposers (env_async t s) = disposers s"
  "finalizeCallbacks (env_async t s) = finalizeCallbacks s"
  "performType (env_async t s) = performType s"
  "debug (env_async t s) = debug s"
  "cancelRequest (env_async t s) = cancelRequest s"
  "has_defer (env_async t s) = has_defer s"
  "asyncErrorsHandled (env_async t s) = asyncErrorsHandled s"
  "expectsLinkedYield (env_async t s) = expectsLinkedYield s"
  "events (env_async t s) = events s"
  "asyncQueue (env_async t s) = asyncQueue s @ [t]"
  by (simp_all add: env_async_def)

subsection \<open>Re-entrant runs of the finalize callbacks\<close>

lemma waiting_mono:
  assumes "finite X'" "X \<subseteq> X'" "set es' \<subseteq> set es"
  shows "waiting es X \<le> waiting es' X'"
proof -
  have "{cb \<in> X. FinalizeCallback_called cb \<notin> set es}
          \<subseteq> {cb \<in> X'. FinalizeCallback_called cb \<notin> set es'}"
    using assms by auto
  moreover have "finite {cb \<in> X'. FinalizeCallback_called cb \<notin> set es'}"
    using assms(1) by simp
  ultimately show ?thesis
    unfolding waiting_def by (intro sum_mono2) auto
qed

lemma waiting_fire:
  assumes fin: "finite X" and mem: "Registering n cb \<in> X"
    and fresh: "FinalizeCallback_called (Registering n cb) \<notin> set es"
  shows "waiting (es @ [FinalizeCallback_called (Registering n cb)]) (insert cb X) < waiting es X"
proof -
  let ?c = "Registering n cb"
  let ?U = "{x \<in> X. FinalizeCallback_called x \<notin> set es}"
  let ?V = "{x \<in> insert cb X.
              FinalizeCallback_called x \<notin> set (es @ [FinalizeCallback_called ?c])}"
  have fu: "finite ?U" using fin by simp
  have cu: "?c \<in> ?U" using mem fresh by simp
  have sub: "?V \<subseteq> insert cb (?U - {?c})" by auto
  have "sum registrations ?V \<le> sum registrations (insert cb (?U - {?c}))"
    using fu sub by (intro sum_mono2) auto
  also have "\<dots> \<le> registrations cb + sum registrations (?U - {?c})"
    using fu by (simp add: sum.insert_if)
  also have "\<dots> < registrations ?c + sum registrations (?U - {?c})" by simp
  also have "\<dots> = sum registrations ?U"
    using sum.remove [OF fu cu, of registrations] by simp
  finally show ?thesis by (simp add: waiting_def)
qed


lemma nesting_waiting: "nesting a = waiting (events a) (set (finalizeCallbacks a))"
  by (simp add: nesting_def)

lemma call_inert_events:
  "inert c \<Longrightarrow>
   finalizeCallbacks (call_finalize_callback f a c) = finalizeCallbacks a
   \<and> set (events a) \<subseteq> set (events (call_finalize_callback f a c))"
  by (cases c) (auto simp: Let_def split: option.splits completion.splits)

lemma call_finalize_callback_cong:
  assumes agree: "\<And>b. nesting b < n \<Longrightarrow> f b = g b"
    and good: "\<And>b. nesting b < n \<Longrightarrow>
                 finalizeCallbacks (f b) = [] \<and> set (events b) \<subseteq> set (events (f b))"
    and bound: "waiting (events a) (set (c # rest) \<union> set (finalizeCallbacks a)) \<le> n"
  shows "call_finalize_callback f a c = call_finalize_callback g a c
         \<and> waiting (events (call_finalize_callback f a c))
              (set rest \<union> set (finalizeCallbacks (call_finalize_callback f a c))) \<le> n"
proof (cases "inert c")
  case True
  then have e: "call_finalize_callback f a c = call_finalize_callback g a c"
    by (cases c) simp_all
  have "waiting (events (call_finalize_callback f a c))
          (set rest \<union> set (finalizeCallbacks (call_finalize_callback f a c)))
        \<le> waiting (events a) (set (c # rest) \<union> set (finalizeCallbacks a))"
    using call_inert_events [OF True, of f a] by (intro waiting_mono) auto
  with e bound show ?thesis by simp
next
  case False
  then obtain m cb where c: "c = Registering m cb" by (cases c) simp_all
  let ?X = "set (c # rest) \<union> set (finalizeCallbacks a)"
  let ?a0 = "emit (FinalizeCallback_called c) a"
  let ?a1 = "?a0\<lparr>finalizeCallbacks := finalizeCallbacks ?a0 @ [cb]\<rparr>"
  show ?thesis
  proof (cases "first_call a c")
    case nf: False
    then have e: "call_finalize_callback f a c = ?a0" "call_finalize_callback g a c = ?a0"
      by (simp_all add: c Let_def)
    have "waiting (events ?a0) (set rest \<union> set (finalizeCallbacks ?a0)) \<le> waiting (events a) ?X"
      by (intro waiting_mono) auto
    with e bound show ?thesis by simp
  next
    case fc: True
    then have fresh: "FinalizeCallback_called (Registering m cb) \<notin> set (events a)"
      by (simp add: first_call_def c)
    have lt: "waiting (events a @ [FinalizeCallback_called (Registering m cb)]) (insert cb ?X)
                < waiting (events a) ?X"
      by (rule waiting_fire) (simp_all add: c fresh)
    show ?thesis
    proof (cases "isFinished (state a)")
      case nfin: False
      then have e: "call_finalize_callback f a c = ?a1" "call_finalize_callback g a c = ?a1"
        using fc by (simp_all add: c Let_def onFinalize_by_def)
      have "waiting (events ?a1) (set rest \<union> set (finalizeCallbacks ?a1))
              \<le> waiting (events a @ [FinalizeCallback_called (Registering m cb)]) (insert cb ?X)"
        by (intro waiting_mono) (auto simp: c)
      with lt bound e show ?thesis by simp
    next
      case fin: True
      then have e: "call_finalize_callback f a c = f ?a1" "call_finalize_callback g a c = g ?a1"
        using fc by (simp_all add: c Let_def onFinalize_by_def)
      have "nesting ?a1
              \<le> waiting (events a @ [FinalizeCallback_called (Registering m cb)]) (insert cb ?X)"
        unfolding nesting_waiting by (intro waiting_mono) (auto simp: c)
      with lt bound have n1: "nesting ?a1 < n" by simp
      note g1 = good [OF n1]
      have "waiting (events (f ?a1)) (set rest \<union> set (finalizeCallbacks (f ?a1)))
              \<le> waiting (events a) ?X"
        using g1 by (intro waiting_mono) auto
      with bound agree [OF n1] e show ?thesis by simp
    qed
  qed
qed

lemma foldl_callbacks_cong:
  assumes agree: "\<And>b. nesting b < n \<Longrightarrow> f b = g b"
    and good: "\<And>b. nesting b < n \<Longrightarrow>
                 finalizeCallbacks (f b) = [] \<and> set (events b) \<subseteq> set (events (f b))"
  shows "waiting (events a) (set rest \<union> set (finalizeCallbacks a)) \<le> n \<Longrightarrow>
         foldl (call_finalize_callback f) a rest = foldl (call_finalize_callback g) a rest"
proof (induction rest arbitrary: a)
  case Nil
  show ?case by simp
next
  case (Cons c rest)
  have st: "call_finalize_callback f a c = call_finalize_callback g a c
         \<and> waiting (events (call_finalize_callback f a c))
              (set rest \<union> set (finalizeCallbacks (call_finalize_callback f a c))) \<le> n"
  proof (rule call_finalize_callback_cong [of n f g])
    fix b assume "nesting b < n"
    then show "f b = g b" by (rule agree)
  next
    fix b assume "nesting b < n"
    then show "finalizeCallbacks (f b) = [] \<and> set (events b) \<subseteq> set (events (f b))"
      by (rule good)
  next
    show "waiting (events a) (set (c # rest) \<union> set (finalizeCallbacks a)) \<le> n"
      by (rule Cons.prems)
  qed
  have "foldl (call_finalize_callback f) (call_finalize_callback f a c) rest
      = foldl (call_finalize_callback g) (call_finalize_callback f a c) rest"
    using st [THEN conjunct2] by (rule Cons.IH)
  then show ?case using st [THEN conjunct1] by simp
qed

lemma runFinalizeCallbacks_by_cong:
  assumes agree: "\<And>b. nesting b < n \<Longrightarrow> f b = g b"
    and good: "\<And>b. nesting b < n \<Longrightarrow>
                 finalizeCallbacks (f b) = [] \<and> set (events b) \<subseteq> set (events (f b))"
    and bound: "nesting s \<le> n"
  shows "runFinalizeCallbacks_by f s = runFinalizeCallbacks_by g s"
proof -
  have "foldl (call_finalize_callback f) s (finalizeCallbacks s)
           = foldl (call_finalize_callback g) s (finalizeCallbacks s)"
  proof (rule foldl_callbacks_cong [of n f g])
    fix b assume "nesting b < n"
    then show "f b = g b" by (rule agree)
  next
    fix b assume "nesting b < n"
    then show "finalizeCallbacks (f b) = [] \<and> set (events b) \<subseteq> set (events (f b))"
      by (rule good)
  next
    show "waiting (events s) (set (finalizeCallbacks s) \<union> set (finalizeCallbacks s)) \<le> n"
      using bound by (simp add: nesting_def)
  qed
  then show ?thesis by (simp add: runFinalizeCallbacks_by_def)
qed


lemma unhandled_thunks_frame [simp]:
  "unhandled_thunks (s\<lparr>events := es\<rparr>) = unhandled_thunks s"
  "unhandled_thunks (s\<lparr>finalizeCallbacks := fc\<rparr>) = unhandled_thunks s"
  "unhandled_thunks (s\<lparr>asyncQueue := q\<rparr>) = unhandled_thunks s"
  "unhandled_thunks (s\<lparr>index := i\<rparr>) = unhandled_thunks s"
  by (simp_all add: unhandled_thunks_def)

lemma reranI:
  "s' = s\<lparr>finalizeCallbacks := fc, events := events s @ es, asyncQueue := asyncQueue s @ q\<rparr> \<Longrightarrow>
   list_all is_callback_event es \<Longrightarrow> set q \<subseteq> {ReportUnhandledThunk} \<Longrightarrow>
   (unhandled_thunks s = [] \<Longrightarrow> q = []) \<Longrightarrow> reran s s'"
  unfolding reran_def by (rule exI [of _ es], rule exI [of _ q]) simp

lemma reranE:
  assumes "reran s s'"
  obtains es q where
    "s' = s\<lparr>finalizeCallbacks := finalizeCallbacks s',
            events := events s @ es, asyncQueue := asyncQueue s @ q\<rparr>"
    "list_all is_callback_event es" "set q \<subseteq> {ReportUnhandledThunk}"
    "unhandled_thunks s = [] \<longrightarrow> q = []"
proof -
  from assms obtain es q where
    h: "s' = s\<lparr>finalizeCallbacks := finalizeCallbacks s',
              events := events s @ es, asyncQueue := asyncQueue s @ q\<rparr>"
      "list_all is_callback_event es" "set q \<subseteq> {ReportUnhandledThunk}"
      "if unhandled_thunks s = [] then q = [] else True"
    unfolding reran_def by blast
  from h(4) have "unhandled_thunks s = [] \<longrightarrow> q = []" by simp
  with h(1) h(2) h(3) show thesis by (rule that)
qed

lemma reran_refl: "reran s s"
  by (rule reranI [where fc = "finalizeCallbacks s" and es = "[]" and q = "[]"]) simp_all

lemma reran_trans:
  assumes a: "reran s s'" and b: "reran s' s''"
  shows "reran s s''"
proof -
  from a obtain es q where
    1: "s' = s\<lparr>finalizeCallbacks := finalizeCallbacks s',
              events := events s @ es, asyncQueue := asyncQueue s @ q\<rparr>"
    and 2: "list_all is_callback_event es" "set q \<subseteq> {ReportUnhandledThunk}"
    and 3: "unhandled_thunks s = [] \<longrightarrow> q = []"
    by (rule reranE)
  from b obtain es' q' where
    4: "s'' = s'\<lparr>finalizeCallbacks := finalizeCallbacks s'',
              events := events s' @ es', asyncQueue := asyncQueue s' @ q'\<rparr>"
    and 5: "list_all is_callback_event es'" "set q' \<subseteq> {ReportUnhandledThunk}"
    and 6: "unhandled_thunks s' = [] \<longrightarrow> q' = []"
    by (rule reranE)
  have u: "unhandled_thunks s' = unhandled_thunks s"
    by (subst 1) simp
  have e: "events s' = events s @ es" "asyncQueue s' = asyncQueue s @ q"
    by (subst 1, simp)+
  have 7: "s'' = s\<lparr>finalizeCallbacks := finalizeCallbacks s'',
              events := events s @ (es @ es'), asyncQueue := asyncQueue s @ (q @ q')\<rparr>"
    by (subst 4, subst 1) (simp add: e)
  show ?thesis
  proof (rule reranI [OF 7])
    show "list_all is_callback_event (es @ es')" using 2 5 by simp
    show "set (q @ q') \<subseteq> {ReportUnhandledThunk}" using 2 5 by simp
    show "q @ q' = []" if "unhandled_thunks s = []" using that 3 6 u by simp
  qed
qed

lemma reran_emit: "is_callback_event e \<Longrightarrow> reran s (emit e s)"
  by (rule reranI [where fc = "finalizeCallbacks s" and es = "[e]" and q = "[]"])
     (simp_all add: emit_def)

lemma reran_finalizeCallbacks: "reran s (s\<lparr>finalizeCallbacks := fc\<rparr>)"
  by (rule reranI [where fc = fc and es = "[]" and q = "[]"]) simp_all

lemma reran_maybeResolveDefer: "reran s (maybeResolveDefer s)"
  by (simp add: maybeResolveDefer_def reran_refl reran_emit)

lemma reran_maybeThrow: "reran s (maybeThrowUnhandledTaskErrorLater s)"
proof (cases "unhandled_thunks s = []")
  case True
  then have "maybeThrowUnhandledTaskErrorLater s = s"
    by (auto simp: maybeThrowUnhandledTaskErrorLater_def unhandled_thunks_def split: if_splits)
  then show ?thesis by (simp add: reran_refl)
next
  case False
  show ?thesis
    by (rule reranI [where fc = "finalizeCallbacks s" and es = "[]" and q = "unhandled_thunks s"])
       (auto simp: maybeThrowUnhandledTaskErrorLater_def unhandled_thunks_def env_async_def)
qed

lemma reran_onFinalize_by:
  assumes f: "\<And>b. reran b (f b)"
  shows "reran s (onFinalize_by f cb s)"
proof -
  have "reran s (s\<lparr>finalizeCallbacks := finalizeCallbacks s @ [cb]\<rparr>)"
    by (rule reran_finalizeCallbacks)
  moreover have "reran (s\<lparr>finalizeCallbacks := finalizeCallbacks s @ [cb]\<rparr>)
                   (f (s\<lparr>finalizeCallbacks := finalizeCallbacks s @ [cb]\<rparr>))"
    by (rule f)
  ultimately have "reran s (f (s\<lparr>finalizeCallbacks := finalizeCallbacks s @ [cb]\<rparr>))"
    by (rule reran_trans)
  then show ?thesis
    by (simp add: onFinalize_by_def Let_def reran_finalizeCallbacks)
qed

lemma reran_call:
  assumes f: "\<And>b. reran b (f b)"
  shows "reran a (call_finalize_callback f a c)"
proof (cases c)
  case (HostCallback n)
  then show ?thesis by (simp add: reran_emit)
next
  case (ResumeParent p i)
  let ?a0 = "emit (FinalizeCallback_called (ResumeParent p i)) a"
  have 0: "reran a ?a0" by (simp add: reran_emit)
  have "reran ?a0 (call_finalize_callback f a c)"
    by (simp add: ResumeParent Let_def reran_emit reran_refl
        split: option.splits completion.splits)
  with 0 show ?thesis by (rule reran_trans)
next
  case (Registering n cb)
  let ?a0 = "emit (FinalizeCallback_called (Registering n cb)) a"
  have 0: "reran a ?a0" by (simp add: reran_emit)
  have "reran ?a0 (onFinalize_by f cb ?a0)" using f by (rule reran_onFinalize_by)
  with 0 have "reran a (onFinalize_by f cb ?a0)" by (rule reran_trans)
  with 0 show ?thesis by (simp add: Registering Let_def)
qed

lemma reran_foldl:
  assumes f: "\<And>b. reran b (f b)"
  shows "reran a (foldl (call_finalize_callback f) a cbs)"
proof (induction cbs arbitrary: a)
  case Nil
  show ?case by (simp add: reran_refl)
next
  case (Cons c cbs)
  have "reran a (call_finalize_callback f a c)" using f by (rule reran_call)
  moreover have "reran (call_finalize_callback f a c)
      (foldl (call_finalize_callback f) (call_finalize_callback f a c) cbs)"
    by (rule Cons.IH)
  ultimately show ?case by (simp add: reran_trans)
qed

lemma reran_by:
  assumes f: "\<And>b. reran b (f b)"
  shows "reran s (runFinalizeCallbacks_by f s)"
proof -
  let ?a = "foldl (call_finalize_callback f) s (finalizeCallbacks s)"
  let ?b = "?a\<lparr>finalizeCallbacks := []\<rparr>"
  have "reran s ?a" using f by (rule reran_foldl)
  moreover have "reran ?a ?b" by (rule reran_finalizeCallbacks)
  ultimately have "reran s ?b" by (rule reran_trans)
  moreover have "reran ?b (maybeResolveDefer ?b)" by (rule reran_maybeResolveDefer)
  ultimately have "reran s (maybeResolveDefer ?b)" by (rule reran_trans)
  moreover have "reran (maybeResolveDefer ?b)
      (maybeThrowUnhandledTaskErrorLater (maybeResolveDefer ?b))" by (rule reran_maybeThrow)
  ultimately show ?thesis unfolding runFinalizeCallbacks_by_def by (rule reran_trans)
qed

lemma reran_nested: "reran s (runFinalizeCallbacks_nested d s)"
proof (induction d arbitrary: s)
  case 0
  show ?case by (simp add: reran_by reran_refl)
next
  case (Suc d)
  show ?case by (simp add: reran_by Suc.IH)
qed

lemma reran_events: "reran s s' \<Longrightarrow> set (events s) \<subseteq> set (events s')"
proof (erule reranE)
  fix es q
  assume 1: "s' = s\<lparr>finalizeCallbacks := finalizeCallbacks s',
                      events := events s @ es, asyncQueue := asyncQueue s @ q\<rparr>"
  have "events s' = events s @ es" by (subst 1) simp
  then show ?thesis by simp
qed


lemma finalizeCallbacks_by [simp]: "finalizeCallbacks (runFinalizeCallbacks_by f s) = []"
  by (simp add: runFinalizeCallbacks_by_def maybeThrowUnhandledTaskErrorLater_def
      maybeResolveDefer_def)

lemma finalizeCallbacks_nested [simp]: "finalizeCallbacks (runFinalizeCallbacks_nested d s) = []"
  by (cases d) simp_all

lemma nested_exact: "nesting s \<le> d \<Longrightarrow>
  runFinalizeCallbacks_nested (Suc d) s = runFinalizeCallbacks_nested d s"
proof (induction d arbitrary: s)
  case 0
  have "runFinalizeCallbacks_by (runFinalizeCallbacks_nested 0) s
      = runFinalizeCallbacks_by (\<lambda>s'. s') s"
  proof (rule runFinalizeCallbacks_by_cong [of 0])
    show "nesting s \<le> 0" by (rule 0)
  qed simp_all
  then show ?case by simp
next
  case (Suc d)
  have "runFinalizeCallbacks_by (runFinalizeCallbacks_nested (Suc d)) s
      = runFinalizeCallbacks_by (runFinalizeCallbacks_nested d) s"
  proof (rule runFinalizeCallbacks_by_cong [of "Suc d"])
    fix b assume "nesting b < Suc d"
    then have "nesting b \<le> d" by simp
    then show "runFinalizeCallbacks_nested (Suc d) b = runFinalizeCallbacks_nested d b"
      by (rule Suc.IH)
  next
    fix b
    show "finalizeCallbacks (runFinalizeCallbacks_nested (Suc d) b) = []
          \<and> set (events b) \<subseteq> set (events (runFinalizeCallbacks_nested (Suc d) b))"
      using reran_events [OF reran_nested [of b "Suc d"]] finalizeCallbacks_nested [of "Suc d" b]
      by blast
  next
    show "nesting s \<le> Suc d" by (rule Suc.prems)
  qed
  then show ?case by simp
qed

lemma nested_enough: "nesting s \<le> d \<Longrightarrow>
  runFinalizeCallbacks_nested d s = runFinalizeCallbacks s"
proof (induction d)
  case 0
  then show ?case by (simp add: runFinalizeCallbacks_def)
next
  case (Suc d)
  show ?case
  proof (cases "nesting s = Suc d")
    case True
    then show ?thesis by (simp add: runFinalizeCallbacks_def)
  next
    case False
    with Suc.prems have le: "nesting s \<le> d" by simp
    then have "runFinalizeCallbacks_nested (Suc d) s = runFinalizeCallbacks_nested d s"
      by (rule nested_exact)
    also have "\<dots> = runFinalizeCallbacks s" using le by (rule Suc.IH)
    finally show ?thesis .
  qed
qed

text \<open>
  \<^verbatim>\<open>runFinalizeCallbacks\<close> is the method of the source: it calls the callbacks, which reach
  \<^verbatim>\<open>runFinalizeCallbacks\<close> itself through \<^verbatim>\<open>onFinalize\<close>, then resets the list, settles the
  deferred result and reports an unhandled error.
\<close>

lemma runFinalizeCallbacks_unfold:
  "runFinalizeCallbacks s = runFinalizeCallbacks_by runFinalizeCallbacks s"
proof (cases "nesting s")
  case 0
  have "runFinalizeCallbacks_by (\<lambda>s'. s') s = runFinalizeCallbacks_by runFinalizeCallbacks s"
  proof (rule runFinalizeCallbacks_by_cong [of 0])
    show "nesting s \<le> 0" using 0 by simp
  qed simp_all
  then show ?thesis using 0 by (simp add: runFinalizeCallbacks_def)
next
  case (Suc d)
  have "runFinalizeCallbacks_by (runFinalizeCallbacks_nested d) s
      = runFinalizeCallbacks_by runFinalizeCallbacks s"
  proof (rule runFinalizeCallbacks_by_cong [of "Suc d"])
    fix b assume "nesting b < Suc d"
    then have "nesting b \<le> d" by simp
    then show "runFinalizeCallbacks_nested d b = runFinalizeCallbacks b"
      by (rule nested_enough)
  next
    fix b
    show "finalizeCallbacks (runFinalizeCallbacks_nested d b) = []
          \<and> set (events b) \<subseteq> set (events (runFinalizeCallbacks_nested d b))"
      using reran_events [OF reran_nested [of b d]] finalizeCallbacks_nested [of d b]
      by blast
  next
    show "nesting s \<le> Suc d" using Suc by simp
  qed
  then show ?thesis using Suc by (simp add: runFinalizeCallbacks_def)
qed

lemma onFinalize_unfold:
  "onFinalize callback s =
     (let s1 = s\<lparr>finalizeCallbacks := finalizeCallbacks s @ [callback]\<rparr> in
      if isFinished (state s1) then runFinalizeCallbacks s1 else s1)"
  by (simp add: onFinalize_def onFinalize_by_def)

lemmas engine_defs = basic_defs runFinalizeCallbacks_unfold

lemma reran_runFinalizeCallbacks: "reran s (runFinalizeCallbacks s)"
  unfolding runFinalizeCallbacks_def by (rule reran_nested)

lemma finalizeCallbacks_runFinalizeCallbacks [simp]:
  "finalizeCallbacks (runFinalizeCallbacks s) = []"
  by (simp add: runFinalizeCallbacks_def)

lemma runFinalizeCallbacks_eq:
  "runFinalizeCallbacks s =
     s\<lparr>finalizeCallbacks := [],
       events := events s @ rerun_events s,
       asyncQueue := asyncQueue s @ rerun_thunks s\<rparr>"
proof (rule reranE [OF reran_runFinalizeCallbacks [of s]])
  fix es q
  assume 1: "runFinalizeCallbacks s = s\<lparr>finalizeCallbacks := finalizeCallbacks (runFinalizeCallbacks s),
                      events := events s @ es, asyncQueue := asyncQueue s @ q\<rparr>"
  have e: "events (runFinalizeCallbacks s) = events s @ es" by (subst 1) simp
  have a: "asyncQueue (runFinalizeCallbacks s) = asyncQueue s @ q" by (subst 1) simp
  have "rerun_events s = es" "rerun_thunks s = q"
    by (simp_all add: rerun_events_def rerun_thunks_def e a)
  with 1 show ?thesis by simp
qed

lemma rerun_events_kind: "list_all is_callback_event (rerun_events s)"
proof (rule reranE [OF reran_runFinalizeCallbacks [of s]])
  fix es q
  assume 1: "runFinalizeCallbacks s = s\<lparr>finalizeCallbacks := finalizeCallbacks (runFinalizeCallbacks s),
                      events := events s @ es, asyncQueue := asyncQueue s @ q\<rparr>"
    and 2: "list_all is_callback_event es"
  have e: "events (runFinalizeCallbacks s) = events s @ es" by (subst 1) simp
  then show ?thesis using 2 by (simp add: rerun_events_def)
qed

lemma rerun_thunks_kind:
  "set (rerun_thunks s) \<subseteq> {ReportUnhandledThunk}"
  "unhandled_thunks s = [] \<Longrightarrow> rerun_thunks s = []"
proof -
  have "set (rerun_thunks s) \<subseteq> {ReportUnhandledThunk}
        \<and> (unhandled_thunks s = [] \<longrightarrow> rerun_thunks s = [])"
  proof (rule reranE [OF reran_runFinalizeCallbacks [of s]])
    fix es q
    assume 1: "runFinalizeCallbacks s = s\<lparr>finalizeCallbacks := finalizeCallbacks (runFinalizeCallbacks s),
                      events := events s @ es, asyncQueue := asyncQueue s @ q\<rparr>"
      and 3: "set q \<subseteq> {ReportUnhandledThunk}" "unhandled_thunks s = [] \<longrightarrow> q = []"
    have a: "asyncQueue (runFinalizeCallbacks s) = asyncQueue s @ q" by (subst 1) simp
    then show ?thesis using 3 by (simp add: rerun_thunks_def)
  qed
  then show "set (rerun_thunks s) \<subseteq> {ReportUnhandledThunk}"
    and "unhandled_thunks s = [] \<Longrightarrow> rerun_thunks s = []" by simp_all
qed

lemma callback_event_kinds:
  "is_callback_event e \<Longrightarrow> \<not> is_terminal e \<and> \<not> is_unhandled_report e \<and> \<not> is_generator_step e"
  by (cases e) simp_all

lemma filter_rerun_events [simp]:
  "filter is_terminal (rerun_events s) = []"
  "filter is_unhandled_report (rerun_events s) = []"
  "filter is_generator_step (rerun_events s) = []"
  using rerun_events_kind [of s] callback_event_kinds
  by (auto simp: filter_empty_conv list_all_iff)

lemma call_finalize_callback_inert:
  "inert cb \<Longrightarrow>
   call_finalize_callback f s cb = s\<lparr>events := events s @ callback_events (state s) cb\<rparr>"
  by (cases cb) (simp_all add: emit_def Let_def split: option.splits completion.splits)

lemma foldl_callbacks_inert:
  "list_all inert cbs \<Longrightarrow>
   foldl (call_finalize_callback f) s cbs =
     s\<lparr>events := events s @ concat (map (callback_events (state s)) cbs)\<rparr>"
  by (induction cbs arbitrary: s) (simp_all add: call_finalize_callback_inert)

lemma maybeResolveDefer_eq: "maybeResolveDefer s = s\<lparr>events := events s @ defer_events s\<rparr>"
  by (simp add: maybeResolveDefer_def defer_events_def emit_def)

lemma maybeThrow_eq:
  "maybeThrowUnhandledTaskErrorLater s = s\<lparr>asyncQueue := asyncQueue s @ unhandled_thunks s\<rparr>"
  by (simp add: maybeThrowUnhandledTaskErrorLater_def unhandled_thunks_def env_async_def)

lemma defer_events_upd [simp]:
  "defer_events (s\<lparr>events := es\<rparr>) = defer_events s"
  "defer_events (s\<lparr>finalizeCallbacks := fc\<rparr>) = defer_events s"
  "defer_events (s\<lparr>asyncQueue := q\<rparr>) = defer_events s"
  "defer_events (s\<lparr>index := i\<rparr>) = defer_events s"
  by (simp_all add: defer_events_def)

lemma runFinalizeCallbacks_inert:
  "list_all inert (finalizeCallbacks s) \<Longrightarrow>
   runFinalizeCallbacks s =
     s\<lparr>finalizeCallbacks := [],
       events := events s @ concat (map (callback_events (state s)) (finalizeCallbacks s))
                   @ defer_events s,
       asyncQueue := asyncQueue s @ unhandled_thunks s\<rparr>"
  by (subst runFinalizeCallbacks_unfold)
     (simp add: runFinalizeCallbacks_by_def foldl_callbacks_inert maybeResolveDefer_eq
        maybeThrow_eq)

lemma rerun_events_inert:
  "list_all inert (finalizeCallbacks s) \<Longrightarrow>
   rerun_events s = concat (map (callback_events (state s)) (finalizeCallbacks s)) @ defer_events s"
  by (simp add: rerun_events_def runFinalizeCallbacks_inert)

lemma runFinalizeCallbacks_fields [simp]:
  "generatorState (runFinalizeCallbacks s) = generatorState s"
  "formatCancelReason (runFinalizeCallbacks s) = formatCancelReason s"
  "globalDebuggingEnabled (runFinalizeCallbacks s) = globalDebuggingEnabled s"
  "state (runFinalizeCallbacks s) = state s"
  "index (runFinalizeCallbacks s) = index s"
  "disposers (runFinalizeCallbacks s) = disposers s"
  "performType (runFinalizeCallbacks s) = performType s"
  "debug (runFinalizeCallbacks s) = debug s"
  "cancelRequest (runFinalizeCallbacks s) = cancelRequest s"
  "has_defer (runFinalizeCallbacks s) = has_defer s"
  "asyncErrorsHandled (runFinalizeCallbacks s) = asyncErrorsHandled s"
  "expectsLinkedYield (runFinalizeCallbacks s) = expectsLinkedYield s"
  "events (runFinalizeCallbacks s) = events s @ rerun_events s"
  "asyncQueue (runFinalizeCallbacks s) = asyncQueue s @ rerun_thunks s"
  by (subst runFinalizeCallbacks_eq, simp)+

lemma finishing_fields [simp]:
  "generatorState (finishing fs s) = generatorState s"
  "formatCancelReason (finishing fs s) = formatCancelReason s"
  "globalDebuggingEnabled (finishing fs s) = globalDebuggingEnabled s"
  "state (finishing fs s) = Object_assign (state s) (fs @ [F_isFinished True])"
  "index (finishing fs s) = index s + 1"
  "disposers (finishing fs s) = disposers s"
  "finalizeCallbacks (finishing fs s) = finalizeCallbacks s"
  "performType (finishing fs s) = performType s"
  "debug (finishing fs s) = debug s"
  "cancelRequest (finishing fs s) = cancelRequest s"
  "has_defer (finishing fs s) = has_defer s"
  "asyncErrorsHandled (finishing fs s) = asyncErrorsHandled s"
  "expectsLinkedYield (finishing fs s) = expectsLinkedYield s"
  "events (finishing fs s) = events s @ [Delegate_setState (fs @ [F_isFinished True])]"
  "asyncQueue (finishing fs s) = asyncQueue s"
  by (simp_all add: finishing_def)

lemma finalized_fields [simp]:
  "generatorState (finalized fs s) = generatorState s"
  "formatCancelReason (finalized fs s) = formatCancelReason s"
  "globalDebuggingEnabled (finalized fs s) = globalDebuggingEnabled s"
  "state (finalized fs s) = Object_assign (state s) (fs @ [F_isFinished True])"
  "index (finalized fs s) = index s + 1"
  "disposers (finalized fs s) = disposers s"
  "finalizeCallbacks (finalized fs s) = []"
  "performType (finalized fs s) = performType s"
  "debug (finalized fs s) = debug s"
  "cancelRequest (finalized fs s) = cancelRequest s"
  "has_defer (finalized fs s) = has_defer s"
  "asyncErrorsHandled (finalized fs s) = asyncErrorsHandled s"
  "expectsLinkedYield (finalized fs s) = expectsLinkedYield s"
  "events (finalized fs s) =
     events s @ Delegate_setState (fs @ [F_isFinished True]) # rerun_events (finishing fs s)"
  "asyncQueue (finalized fs s) = asyncQueue s @ rerun_thunks (finishing fs s)"
  by (simp_all add: finalized_def)


subsection \<open>The index never decreases\<close>

lemma index_emit [simp]: "index (emit e s) = index s"
  by (simp add: emit_def)
lemma index_env_async [simp]: "index (env_async t s) = index s"
  by (simp add: env_async_def)
lemma index_setState [simp]: "index (setState fs s) = index s"
  by (simp add: setState_def)
lemma index_addDisposer [simp]: "index (addDisposer d s) = index s"
  by (simp add: addDisposer_def split: jsval.splits)

lemma foldl_emit: "foldl (\<lambda>s' d. emit (f d) s') s ds = s\<lparr>events := events s @ map f ds\<rparr>"
  by (induction ds arbitrary: s) (simp_all add: emit_def)

lemma dispose_eq:
  "dispose r s = (if disposers s = [] then s
     else s\<lparr>disposers := [], events := events s @ map (\<lambda>d. Disposer_called d r) (disposers s)\<rparr>)"
  by (simp add: dispose_def Let_def foldl_emit)

lemma index_dispose [simp]: "index (dispose r s) = index s" by (simp add: dispose_eq)

lemma index_advanceIndex: "index s \<le> index (snd (advanceIndex i s))"
  by (simp add: advanceIndex_def)

lemma index_requestCancel [simp]: "index (snd (requestCancel r s)) = index s"
  by (simp add: requestCancel_def)

lemma index_proceedAsync [simp]: "index (proceedAsync k v s) = index s + 1"
  by (simp add: proceedAsync_def advanceIndex_def)

lemma index_proceedChecked: "index s \<le> index (proceedChecked i k v s)"
  by (simp add: proceedChecked_def advanceIndex_def proceedWithCancelAsync_def)

lemma index_maybeResolveDefer [simp]: "index (maybeResolveDefer s) = index s"
  by (simp add: maybeResolveDefer_def)

lemma index_maybeThrow [simp]: "index (maybeThrowUnhandledTaskErrorLater s) = index s"
  by (simp add: maybeThrowUnhandledTaskErrorLater_def)

lemma index_onFinalize [simp]: "index (onFinalize cb s) = index s"
  by (simp add: onFinalize_unfold Let_def)

lemma index_promise [simp]: "index (promise s) = index s"
  by (simp add: promise_def)

lemma index_dispatch [simp]: "index (instance_of (dispatchFinalizeEvents cs s)) = index s"
  by (simp add: dispatchFinalizeEvents_def split: option.splits completion.splits)

lemma index_finalizeShared [simp]: "index (instance_of (finalizeShared fs s)) = index s + 1"
  by (simp add: finalizeShared_def Let_def setState_def)

lemma index_finalizeWithCancel: "index s \<le> index (instance_of (finalizeWithCancel s))"
  by (simp add: finalizeWithCancel_def Let_def split: option.splits)

lemma index_finalize: "index s \<le> index (instance_of (finalize v cs s))"
  by (simp add: finalize_def index_finalizeWithCancel)

lemma index_generatorStep [simp]: "index (snd (generatorStep v k s)) = index s"
  by (simp add: generatorStep_def Let_def split: prod.splits)

lemma index_invokeYieldable [simp]: "index (invokeYieldable v s) = index s"
  by (simp add: invokeYieldable_def Let_def split: option.splits call_result.splits)

lemma index_handleYieldedValue: "index s \<le> index (handleYieldedValue r s)"
  by (simp add: handleYieldedValue_def Let_def proceedWithSimpleValue_def handleYieldedUnknownThenable_def)

lemma index_handleResolvedContinueValue:
  "index s \<le> index (instance_of (handleResolvedContinueValue k v s))"
proof -
  obtain r s1 where g: "generatorStep v k s = (r, s1)" by (cases "generatorStep v k s")
  then have i1: "index s1 = index s" using index_generatorStep [of v k s] by simp
  obtain a s2 where a: "advanceIndex (index s) s1 = (a, s2)" by (cases "advanceIndex (index s) s1")
  then have i2: "index s \<le> index s2" using index_advanceIndex [of s1 "index s"] i1 by simp
  have "index s2 \<le> index (instance_of (finalize (sr_value r) COMPLETION_ERROR s2))"
    by (rule index_finalize)
  moreover have "index s2 \<le> index (handleYieldedValue r s2)" by (rule index_handleYieldedValue)
  ultimately show ?thesis using g a i2
    by (simp add: handleResolvedContinueValue_def Let_def)
qed

lemma index_handleResolvedReturnedValue:
  "index s \<le> index (instance_of (handleResolvedReturnedValue k v s))"
  by (cases k) (simp_all add: handleResolvedReturnedValue_def index_finalize)

lemma index_proceedSync: "index s \<le> index (instance_of (proceedSync k v s))"
  using index_handleResolvedReturnedValue [of "dispose JUndefined s" k v]
        index_handleResolvedContinueValue [of "dispose JUndefined s" k v]
  by (simp add: proceedSync_def Let_def)

lemma instance_of_and_then_emit:
  "instance_of (and_then r (\<lambda>s'. Ok (emit e s'))) =
     (case r of Ok s' \<Rightarrow> emit e s' | Threw x s' \<Rightarrow> s')"
  by (cases r) simp_all

lemma index_start: "index s \<le> index (instance_of (start s))"
  using index_proceedSync [of "setState [F_hasStarted True] s" YIELDABLE_CONTINUE JUndefined]
  by (cases "proceedSync YIELDABLE_CONTINUE JUndefined (setState [F_hasStarted True] s)")
     (simp_all add: start_def)

lemma index_cancel: "index s \<le> index (instance_of (cancel r s))"
  using index_finalizeWithCancel [of "s\<lparr>cancelRequest := Some (CancelRequest CANCEL_KIND_EXPLICIT r)\<rparr>"]
  by (simp add: cancel_def requestCancel_def proceedWithCancelAsync_def)

lemma index_run_thunk: "index s \<le> index (instance_of (run_thunk t s))"
  by (cases t) (simp_all add: index_proceedSync)

lemma index_exec: "index s \<le> index (exec c s)"
proof (cases c)
  case (Run_async n)
  then show ?thesis
    using index_run_thunk [of "s\<lparr>asyncQueue := take n (asyncQueue s) @ drop (Suc n) (asyncQueue s)\<rparr>" "asyncQueue s ! n"]
    by (simp add: exec_def)
qed (simp_all add: exec_def index_start index_cancel index_proceedChecked index_proceedSync onYielded_def Let_def)

lemma index_run: "index s \<le> index (run cs s)"
proof (induction cs arbitrary: s)
  case Nil then show ?case by simp
next
  case (Cons c cs)
  have "index s \<le> index (exec c s)" by (rule index_exec)
  also have "\<dots> \<le> index (run cs (exec c s))" by (rule Cons.IH)
  finally show ?case by simp
qed

text \<open>
  C4. The index starts at 1 and never decreases: \<^verbatim>\<open>advanceIndex\<close>, \<^verbatim>\<open>proceedAsync\<close>,
  \<^verbatim>\<open>finalizeShared\<close>, every call from outside, every turn of the environment, and every
  sequence of them leave it equal to or greater than it was.
\<close>

theorem index_never_decreases:
  "index (new_TaskInstanceState body fmt gde dbg pt) = 1
   \<and> index s \<le> index (snd (advanceIndex i s))
   \<and> index s \<le> index (proceedAsync k v s)
   \<and> index s \<le> index (instance_of (finalizeShared fs s))
   \<and> index s \<le> index (exec c s)
   \<and> index s \<le> index (run cs s)"
  by (simp add: new_TaskInstanceState_def index_advanceIndex index_exec index_run)

theorem index_never_decreases_witness:
  "index example_instance = 1
   \<and> index example_instance \<le> index (snd (advanceIndex 1 example_instance))
   \<and> index example_instance \<le> index (proceedAsync YIELDABLE_CONTINUE JNull example_instance)
   \<and> index example_instance \<le> index (instance_of (finalizeShared [] example_instance))
   \<and> index example_instance \<le> index (exec Call_start example_instance)
   \<and> index (run [Call_start, Run_async 0, Run_async 0] example_instance) = 6"
proof -
  have "index (run [Call_start, Run_async 0, Run_async 0] example_instance) = 6"
    by (simp add: example_defs engine_defs)
  then show ?thesis
    using index_never_decreases [of example_body "\<lambda>r. ''canceled''" False False
        PERFORM_TYPE_DEFAULT example_instance 1 YIELDABLE_CONTINUE JNull "[]" Call_start
        "[Call_start, Run_async 0, Run_async 0]"]
    by (simp add: example_instance_def)
qed

subsection \<open>Tickets\<close>

lemma proceedChecked_changes_iff:
  "(proceedChecked t k v s \<noteq> s) = (\<not> isFinished (state s) \<and> t = index s)"
proof (cases "\<not> isFinished (state s) \<and> t = index s")
  case True
  then have "index (proceedChecked t k v s) \<noteq> index s"
    by (simp add: proceedChecked_def advanceIndex_def proceedWithCancelAsync_def)
  then have "proceedChecked t k v s \<noteq> s" by auto
  with True show ?thesis by simp
next
  case False
  then have "proceedChecked t k v s = s"
    by (auto simp: proceedChecked_def advanceIndex_def)
  with False show ?thesis by simp
qed

lemma proceedChecked_honoured_index:
  "proceedChecked t k v s \<noteq> s \<Longrightarrow> t < index (proceedChecked t k v s)"
  by (simp add: proceedChecked_changes_iff)
     (simp add: proceedChecked_def advanceIndex_def proceedWithCancelAsync_def)

lemma honoured_stale: "t < index s \<Longrightarrow> honoured t cs s = 0"
proof (induction cs arbitrary: s)
  case Nil then show ?case by simp
next
  case (Cons c cs)
  have le: "index s \<le> index (exec c s)" by (rule index_exec)
  with Cons.prems have "t < index (exec c s)" by simp
  then have rest: "honoured t cs (exec c s) = 0" by (rule Cons.IH)
  have "\<not> (presents t c \<and> exec c s \<noteq> s)"
  proof (cases c)
    case (Call_proceedChecked i k v)
    with Cons.prems show ?thesis
      by (auto simp: exec_def proceedChecked_changes_iff)
  qed simp_all
  then have "honoured t (c # cs) s = honoured t cs (exec c s)"
    by (simp only: honoured.simps if_False add_0)
  with rest show ?case by simp
qed

lemma honoured_at_most_once: "honoured t cs s \<le> 1"
proof (induction cs arbitrary: s)
  case Nil then show ?case by simp
next
  case (Cons c cs)
  show ?case
  proof (cases "presents t c \<and> exec c s \<noteq> s")
    case True
    then obtain k v where c: "c = Call_proceedChecked t k v" by (cases c) auto
    with True have "t < index (exec c s)"
      by (simp add: exec_def proceedChecked_honoured_index)
    then have "honoured t cs (exec c s) = 0" by (rule honoured_stale)
    moreover from True have "honoured t (c # cs) s = 1 + honoured t cs (exec c s)"
      by simp
    ultimately show ?thesis by simp
  next
    case False
    then have "honoured t (c # cs) s = honoured t cs (exec c s)"
      by (simp only: honoured.simps if_False add_0)
    with Cons.IH [of "exec c s"] show ?thesis by simp
  qed
qed

text \<open>
  C1. A resumption attempt \<^verbatim>\<open>proceedChecked(ticket, kind, value)\<close> changes the instance
  exactly when the instance is not finished and the ticket equals the current index; and in
  any sequence of calls and turns, of all the attempts that present one ticket at most one is
  honoured, the others leaving the instance as it is.
\<close>

theorem ticket_honoured_at_most_once:
  "(proceedChecked t k v s \<noteq> s) = (\<not> isFinished (state s) \<and> t = index s)
   \<and> honoured t cs s \<le> 1"
  using proceedChecked_changes_iff [of t k v s] honoured_at_most_once [of t cs s]
  by (rule conjI)

theorem ticket_honoured_at_most_once_witness:
  "proceedChecked 1 YIELDABLE_CONTINUE (JNum 7) example_instance \<noteq> example_instance
   \<and> \<not> isFinished (state example_instance) \<and> index example_instance = 1
   \<and> honoured 1 [Call_proceedChecked 1 YIELDABLE_CONTINUE (JNum 7),
                 Call_proceedChecked 1 YIELDABLE_THROW (JNum 8)] example_instance = 1"
proof -
  let ?s1 = "proceedChecked 1 YIELDABLE_CONTINUE (JNum 7) example_instance"
  have a: "\<not> isFinished (state example_instance)" "index example_instance = 1"
    by (simp_all add: example_instance_def new_TaskInstanceState_def INITIAL_STATE_def)
  have b: "?s1 \<noteq> example_instance"
    using ticket_honoured_at_most_once [of 1 YIELDABLE_CONTINUE "JNum 7" example_instance "[]"] a
    by simp
  have "index ?s1 = 3"
    using a by (simp add: proceedChecked_def advanceIndex_def)
  then have c: "proceedChecked 1 YIELDABLE_THROW (JNum 8) ?s1 = ?s1"
    using proceedChecked_changes_iff [of 1 YIELDABLE_THROW "JNum 8" ?s1] by auto
  show ?thesis using a b c by (simp add: exec_def)
qed

subsection \<open>Finalization\<close>

lemma isFinished_assign [simp]:
  "isFinished (Object_assign st (fs @ [F_isFinished True]))"
  by (simp add: Object_assign_def)

lemma finalizeShared_eq:
  "finalizeShared fs s =
     dispatchFinalizeEvents (field_completionState (fs @ [F_isFinished True])) (finalized fs s)"
  by (simp add: finalizeShared_def finalized_def finishing_def Let_def setState_def emit_def)

lemma finalize_success_eq:
  "cancelRequest s = None \<Longrightarrow>
   finalize v COMPLETION_SUCCESS s =
     Ok (emit Delegate_onSuccess
           (finalized [F_completionState COMPLETION_SUCCESS, F_isSuccessful True, F_value v] s))"
  by (simp add: finalize_def finalizeShared_eq dispatchFinalizeEvents_def)

lemma finalize_error_eq:
  "cancelRequest s = None \<Longrightarrow>
   finalize v COMPLETION_ERROR s =
     Ok (emit (Delegate_onError v)
           (finalized [F_completionState COMPLETION_ERROR, F_isError True, F_error v] s))"
  by (simp add: finalize_def finalizeShared_eq dispatchFinalizeEvents_def Object_assign_def)

lemma cancelRequest_cancel_logged [simp]: "cancelRequest (cancel_logged r s) = cancelRequest s"
  by (simp add: cancel_logged_def)

lemma finalizeWithCancel_eq:
  "cancelRequest s = Some request \<Longrightarrow>
   finalizeWithCancel s =
     Ok (emit (Delegate_onCancel (reason request))
           (finalized (cancel_fields request s) (cancel_logged request s)))"
  by (simp add: finalizeWithCancel_def finalizeShared_eq dispatchFinalizeEvents_def
      cancel_fields_def cancel_logged_def Let_def)

lemma finalize_cancel_eq:
  "cancelRequest s = Some request \<Longrightarrow> finalize v cs s = finalizeWithCancel s"
  by (simp add: finalize_def)

lemma terminal_events_emit [simp]:
  "terminal_events (emit e s) = terminal_events s @ (if is_terminal e then [e] else [])"
  by (simp add: terminal_events_def)

lemma terminal_events_finalized [simp]:
  "terminal_events (finalized fs s) = terminal_events s"
  by (simp add: terminal_events_def)

lemma terminal_events_cancel_logged [simp]:
  "terminal_events (cancel_logged r s) = terminal_events s"
  by (simp add: cancel_logged_def)

lemma state_cancel_logged [simp]: "state (cancel_logged r s) = state s"
  by (simp add: cancel_logged_def)

lemma state_finalized:
  "state (finalized fs s) = Object_assign (state s) (fs @ [F_isFinished True])"
  by simp

text \<open>
  C3. Whenever \<^verbatim>\<open>finalize(value, outcome)\<close> is called while a cancel request is pending, the
  instance finalizes with the cancel outcome, whatever value and outcome were passed: it does
  exactly what \<^verbatim>\<open>finalizeWithCancel\<close> does. Only without a cancel request does it record
  success with the value, or error with the value.
\<close>

theorem cancel_request_preempts_outcome:
  "(cancelRequest s = Some request \<longrightarrow>
      finalize v cs s = finalizeWithCancel s
      \<and> returned (finalize v cs s)
      \<and> isFinished (state (instance_of (finalize v cs s)))
      \<and> isCanceled (state (instance_of (finalize v cs s)))
      \<and> completionState (state (instance_of (finalize v cs s))) = Some COMPLETION_CANCEL
      \<and> isSuccessful (state (instance_of (finalize v cs s))) = isSuccessful (state s)
      \<and> isError (state (instance_of (finalize v cs s))) = isError (state s)
      \<and> state_value (state (instance_of (finalize v cs s))) = state_value (state s)
      \<and> state_error (state (instance_of (finalize v cs s))) =
            JError TASK_CANCELATION_NAME (formatCancelReason s (reason request))
      \<and> terminal_events (instance_of (finalize v cs s)) =
            terminal_events s @ [Delegate_onCancel (reason request)])
   \<and> (cancelRequest s = None \<longrightarrow>
      returned (finalize v COMPLETION_SUCCESS s)
      \<and> isFinished (state (instance_of (finalize v COMPLETION_SUCCESS s)))
      \<and> isSuccessful (state (instance_of (finalize v COMPLETION_SUCCESS s)))
      \<and> completionState (state (instance_of (finalize v COMPLETION_SUCCESS s))) =
            Some COMPLETION_SUCCESS
      \<and> state_value (state (instance_of (finalize v COMPLETION_SUCCESS s))) = v
      \<and> isCanceled (state (instance_of (finalize v COMPLETION_SUCCESS s))) = isCanceled (state s)
      \<and> terminal_events (instance_of (finalize v COMPLETION_SUCCESS s)) =
            terminal_events s @ [Delegate_onSuccess]
      \<and> returned (finalize v COMPLETION_ERROR s)
      \<and> isFinished (state (instance_of (finalize v COMPLETION_ERROR s)))
      \<and> isError (state (instance_of (finalize v COMPLETION_ERROR s)))
      \<and> completionState (state (instance_of (finalize v COMPLETION_ERROR s))) =
            Some COMPLETION_ERROR
      \<and> state_error (state (instance_of (finalize v COMPLETION_ERROR s))) = v
      \<and> isCanceled (state (instance_of (finalize v COMPLETION_ERROR s))) = isCanceled (state s)
      \<and> terminal_events (instance_of (finalize v COMPLETION_ERROR s)) =
            terminal_events s @ [Delegate_onError v])"
proof (intro conjI impI)
  assume r: "cancelRequest s = Some request"
  show "finalize v cs s = finalizeWithCancel s" using r by (rule finalize_cancel_eq)
  note e = finalize_cancel_eq [OF r, of v cs] finalizeWithCancel_eq [OF r]
  show "returned (finalize v cs s)" by (simp add: e)
  show "isFinished (state (instance_of (finalize v cs s)))" by (simp add: e state_finalized Object_assign_def)
  show "isCanceled (state (instance_of (finalize v cs s)))"
    by (simp add: e state_finalized cancel_fields_def Object_assign_def)
  show "completionState (state (instance_of (finalize v cs s))) = Some COMPLETION_CANCEL"
    by (simp add: e state_finalized cancel_fields_def Object_assign_def)
  show "isSuccessful (state (instance_of (finalize v cs s))) = isSuccessful (state s)"
    by (simp add: e state_finalized cancel_fields_def Object_assign_def)
  show "isError (state (instance_of (finalize v cs s))) = isError (state s)"
    by (simp add: e state_finalized cancel_fields_def Object_assign_def)
  show "state_value (state (instance_of (finalize v cs s))) = state_value (state s)"
    by (simp add: e state_finalized cancel_fields_def Object_assign_def)
  show "state_error (state (instance_of (finalize v cs s))) =
          JError TASK_CANCELATION_NAME (formatCancelReason s (reason request))"
    by (simp add: e state_finalized cancel_fields_def Object_assign_def)
  show "terminal_events (instance_of (finalize v cs s)) =
          terminal_events s @ [Delegate_onCancel (reason request)]"
    by (simp add: e)
next
  assume n: "cancelRequest s = None"
  note e = finalize_success_eq [OF n, of v]
  show "returned (finalize v COMPLETION_SUCCESS s)" by (simp add: e)
  show "isFinished (state (instance_of (finalize v COMPLETION_SUCCESS s)))"
    by (simp add: e state_finalized Object_assign_def)
  show "isSuccessful (state (instance_of (finalize v COMPLETION_SUCCESS s)))"
    by (simp add: e state_finalized Object_assign_def)
  show "completionState (state (instance_of (finalize v COMPLETION_SUCCESS s))) =
          Some COMPLETION_SUCCESS"
    by (simp add: e state_finalized Object_assign_def)
  show "state_value (state (instance_of (finalize v COMPLETION_SUCCESS s))) = v"
    by (simp add: e state_finalized Object_assign_def)
  show "isCanceled (state (instance_of (finalize v COMPLETION_SUCCESS s))) = isCanceled (state s)"
    by (simp add: e state_finalized Object_assign_def)
  show "terminal_events (instance_of (finalize v COMPLETION_SUCCESS s)) =
          terminal_events s @ [Delegate_onSuccess]"
    by (simp add: e)
next
  assume n: "cancelRequest s = None"
  note e = finalize_error_eq [OF n, of v]
  show "returned (finalize v COMPLETION_ERROR s)" by (simp add: e)
  show "isFinished (state (instance_of (finalize v COMPLETION_ERROR s)))"
    by (simp add: e state_finalized Object_assign_def)
  show "isError (state (instance_of (finalize v COMPLETION_ERROR s)))"
    by (simp add: e state_finalized Object_assign_def)
  show "completionState (state (instance_of (finalize v COMPLETION_ERROR s))) =
          Some COMPLETION_ERROR"
    by (simp add: e state_finalized Object_assign_def)
  show "state_error (state (instance_of (finalize v COMPLETION_ERROR s))) = v"
    by (simp add: e state_finalized Object_assign_def)
  show "isCanceled (state (instance_of (finalize v COMPLETION_ERROR s))) = isCanceled (state s)"
    by (simp add: e state_finalized Object_assign_def)
  show "terminal_events (instance_of (finalize v COMPLETION_ERROR s)) =
          terminal_events s @ [Delegate_onError v]"
    by (simp add: e)
qed

theorem cancel_request_preempts_outcome_witness:
  "cancelRequest example_cancel_requested = Some (CancelRequest CANCEL_KIND_EXPLICIT (JStr ''stop''))
   \<and> isCanceled (state (instance_of (finalize (JNum 1) COMPLETION_SUCCESS example_cancel_requested)))
   \<and> terminal_events (instance_of (finalize (JNum 1) COMPLETION_SUCCESS example_cancel_requested))
        = [Delegate_onCancel (JStr ''stop'')]
   \<and> cancelRequest example_instance = None
   \<and> state_value (state (instance_of (finalize (JNum 1) COMPLETION_SUCCESS example_instance))) = JNum 1
   \<and> terminal_events (instance_of (finalize (JNum 2) COMPLETION_ERROR example_instance))
        = [Delegate_onError (JNum 2)]"
proof -
  have a: "cancelRequest example_cancel_requested
             = Some (CancelRequest CANCEL_KIND_EXPLICIT (JStr ''stop''))"
    by (simp add: example_cancel_requested_def)
  have b: "cancelRequest example_instance = None"
    by (simp add: example_instance_def new_TaskInstanceState_def)
  have t: "terminal_events example_cancel_requested = []" "terminal_events example_instance = []"
    by (simp_all add: terminal_events_def example_cancel_requested_def example_instance_def
        new_TaskInstanceState_def)
  note c = cancel_request_preempts_outcome [of example_cancel_requested
        "CancelRequest CANCEL_KIND_EXPLICIT (JStr ''stop'')" "JNum 1" COMPLETION_SUCCESS,
        THEN conjunct1, rule_format, OF a]
  note n1 = cancel_request_preempts_outcome [of example_instance undefined "JNum 1"
        COMPLETION_SUCCESS, THEN conjunct2, rule_format, OF b]
  note n2 = cancel_request_preempts_outcome [of example_instance undefined "JNum 2"
        COMPLETION_SUCCESS, THEN conjunct2, rule_format, OF b]
  show ?thesis
    using a b c [THEN conjunct2] n1 n2 by (simp add: t)
qed

subsection \<open>Yielded values\<close>

lemma proceedAsync_eq:
  "proceedAsync k v s =
     s\<lparr>index := index s + 1, asyncQueue := asyncQueue s @ [ProceedSyncThunk k v]\<rparr>"
  by (simp add: proceedAsync_def advanceIndex_def env_async_def)

lemma handleYieldedValue_raw:
  "instanceof_RawValue (sr_value r) \<Longrightarrow>
   handleYieldedValue r s = proceedAsync YIELDABLE_CONTINUE (prop_value (sr_value r)) s"
  by (cases "sr_value r") (simp_all add: handleYieldedValue_def proceedWithSimpleValue_def)

text \<open>
  C6. A yielded value that is an instance of \<^verbatim>\<open>RawValue\<close> is unwrapped and the instance
  resumes with \<^verbatim>\<open>YIELDABLE_CONTINUE\<close> and the unwrapped value, through \<^verbatim>\<open>proceedAsync\<close>:
  nothing is added to the events, so no handler is called and no \<^verbatim>\<open>then\<close> is subscribed,
  whatever the wrapper and the wrapped value expose.
\<close>

theorem raw_value_resumes_unwrapped:
  "instanceof_RawValue (sr_value r) \<longrightarrow>
     handleYieldedValue r s = proceedAsync YIELDABLE_CONTINUE (prop_value (sr_value r)) s
     \<and> handleYieldedValue r s =
         s\<lparr>index := index s + 1,
           asyncQueue := asyncQueue s
             @ [ProceedSyncThunk YIELDABLE_CONTINUE (prop_value (sr_value r))]\<rparr>
     \<and> events (handleYieldedValue r s) = events s
     \<and> disposers (handleYieldedValue r s) = disposers s"
  by (simp add: handleYieldedValue_raw proceedAsync_eq)

theorem raw_value_resumes_unwrapped_witness:
  "instanceof_RawValue (sr_value (yielded example_raw))
   \<and> prop_yieldable example_raw = Some (Throws (JStr ''boom''))
   \<and> is_function (prop_then example_raw)
   \<and> prop_yieldable (prop_value example_raw) = Some (Returns (JFun 4))
   \<and> is_function (prop_then (prop_value example_raw))
   \<and> asyncQueue (handleYieldedValue (yielded example_raw) example_instance) =
        [ProceedSyncThunk YIELDABLE_CONTINUE
           (JObject False JUndefined (JFun 3) (Some (Returns (JFun 4))) (JFun 5) None)]
   \<and> events (handleYieldedValue (yielded example_raw) example_instance) = []"
proof -
  have a: "instanceof_RawValue (sr_value (yielded example_raw))"
    by (simp add: yielded_def example_raw_def)
  have b: "asyncQueue example_instance = []" "events example_instance = []"
    by (simp_all add: example_instance_def new_TaskInstanceState_def)
  show ?thesis
    using raw_value_resumes_unwrapped
      [of "yielded example_raw" example_instance, rule_format, OF a, THEN conjunct2] a b
    by (simp add: yielded_def example_raw_def)
qed

text \<open>
  C7, as stated, fails: the disposer of a \<^verbatim>\<open>RawValue\<close> is not captured, neither the
  wrapper's nor the wrapped value's, since \<^verbatim>\<open>handleYieldedValue\<close> returns before it reads
  \<^verbatim>\<open>__ec_cancel__\<close>.
\<close>

theorem raw_value_disposer_not_captured:
  "instanceof_RawValue example_raw
   \<and> prop_ec_cancel example_raw = JFun 7
   \<and> prop_ec_cancel (prop_value example_raw) = JFun 3
   \<and> disposers (handleYieldedValue (yielded example_raw) example_instance) = []"
proof -
  have "instanceof_RawValue (sr_value (yielded example_raw))"
    by (simp add: yielded_def example_raw_def)
  then have "handleYieldedValue (yielded example_raw) example_instance
      = proceedAsync YIELDABLE_CONTINUE (prop_value (sr_value (yielded example_raw))) example_instance"
    by (rule handleYieldedValue_raw)
  then show ?thesis
    by (simp add: proceedAsync_eq example_raw_def example_instance_def new_TaskInstanceState_def)
qed

lemma disposers_frames [simp]:
  "disposers (proceedAsync k v s) = disposers s"
  "disposers (handleYieldedUnknownThenable t s) = disposers s"
  by (simp_all add: proceedAsync_eq handleYieldedUnknownThenable_def)

lemma addDisposer_fun: "addDisposer (JFun d) s = s\<lparr>disposers := disposers s @ [d]\<rparr>"
  by (simp add: addDisposer_def)

lemma disposers_invokeYieldable:
  "disposers (invokeYieldable v s) =
     disposers s @ (case prop_yieldable v of Some (Returns (JFun d')) \<Rightarrow> [d'] | _ \<Rightarrow> [])"
  by (simp add: invokeYieldable_def addDisposer_def Let_def
      split: option.splits call_result.splits jsval.splits)

text \<open>
  C7, amended. For every yielded value that is neither empty nor an instance of
  \<^verbatim>\<open>RawValue\<close> and that carries a function under \<^verbatim>\<open>__ec_cancel__\<close>, that disposer is
  captured whichever of the remaining rules applies (handler, thenable, plain value); a
  handler that returns a function adds that one after it.
\<close>

theorem disposer_captured_unless_empty_or_raw:
  "truthy (sr_value r) \<and> \<not> instanceof_RawValue (sr_value r)
     \<and> prop_ec_cancel (sr_value r) = JFun d \<longrightarrow>
   disposers (handleYieldedValue r s) =
     disposers s @ d #
       (case prop_yieldable (sr_value r) of Some (Returns (JFun d')) \<Rightarrow> [d'] | _ \<Rightarrow> [])"
  by (simp add: handleYieldedValue_def Let_def addDisposer_fun disposers_invokeYieldable
      proceedWithSimpleValue_def split: option.splits call_result.splits jsval.splits)

theorem disposer_captured_unless_empty_or_raw_witness:
  "truthy example_throwing_yieldable \<and> \<not> instanceof_RawValue example_throwing_yieldable
   \<and> prop_ec_cancel example_throwing_yieldable = JFun 9
   \<and> disposers (handleYieldedValue (yielded example_throwing_yieldable) example_instance) = [9]"
proof -
  have a: "truthy (sr_value (yielded example_throwing_yieldable))
      \<and> \<not> instanceof_RawValue (sr_value (yielded example_throwing_yieldable))
      \<and> prop_ec_cancel (sr_value (yielded example_throwing_yieldable)) = JFun 9"
    by (simp add: yielded_def example_throwing_yieldable_def)
  have b: "disposers example_instance = []"
    by (simp add: example_instance_def new_TaskInstanceState_def)
  show ?thesis
    using disposer_captured_unless_empty_or_raw
      [of "yielded example_throwing_yieldable" 9 example_instance, rule_format, OF a] a b
    by (simp add: yielded_def example_throwing_yieldable_def)
qed

lemma invokeYieldable_throws:
  "prop_yieldable v = Some (Throws e) \<Longrightarrow>
   invokeYieldable v s =
     s\<lparr>events := events s @ [Delegate_getYieldContext, Yieldable_called (index s),
                              Env_reportUncaughtRejection AtInvokeYieldable e]\<rparr>"
  by (simp add: invokeYieldable_def Let_def emit_def)

lemma handleYieldedValue_yieldable:
  "truthy (sr_value r) \<Longrightarrow> \<not> instanceof_RawValue (sr_value r) \<Longrightarrow>
   prop_yieldable (sr_value r) \<noteq> None \<Longrightarrow>
   handleYieldedValue r s = invokeYieldable (sr_value r) (addDisposer (prop_ec_cancel (sr_value r)) s)"
  by (simp add: handleYieldedValue_def Let_def)

lemma addDisposer_fields [simp]:
  "generatorState (addDisposer d s) = generatorState s"
  "state (addDisposer d s) = state s"
  "finalizeCallbacks (addDisposer d s) = finalizeCallbacks s"
  "cancelRequest (addDisposer d s) = cancelRequest s"
  "has_defer (addDisposer d s) = has_defer s"
  "asyncErrorsHandled (addDisposer d s) = asyncErrorsHandled s"
  "expectsLinkedYield (addDisposer d s) = expectsLinkedYield s"
  "events (addDisposer d s) = events s"
  "asyncQueue (addDisposer d s) = asyncQueue s"
  by (simp_all add: addDisposer_def split: jsval.splits)

text \<open>
  C9. If the handler of a yielded value throws, the exception goes to
  \<^verbatim>\<open>env.reportUncaughtRejection\<close> and nowhere else: apart from the events, and the disposer
  that \<^verbatim>\<open>handleYieldedValue\<close> captured before it called the handler, the instance is as it
  was. The generator is not resumed, no outcome is recorded, nothing is scheduled.
\<close>

theorem handler_failure_is_reported_only:
  "prop_yieldable v = Some (Throws e) \<longrightarrow>
     invokeYieldable v s =
       s\<lparr>events := events s @ [Delegate_getYieldContext, Yieldable_called (index s),
                                Env_reportUncaughtRejection AtInvokeYieldable e]\<rparr>
     \<and> (truthy v \<and> \<not> instanceof_RawValue v \<and> sr_value r = v \<longrightarrow>
          handleYieldedValue r s =
            (addDisposer (prop_ec_cancel v) s)
              \<lparr>events := events s @ [Delegate_getYieldContext, Yieldable_called (index s),
                                     Env_reportUncaughtRejection AtInvokeYieldable e]\<rparr>
          \<and> generatorState (handleYieldedValue r s) = generatorState s
          \<and> state (handleYieldedValue r s) = state s
          \<and> index (handleYieldedValue r s) = index s
          \<and> cancelRequest (handleYieldedValue r s) = cancelRequest s
          \<and> finalizeCallbacks (handleYieldedValue r s) = finalizeCallbacks s
          \<and> asyncQueue (handleYieldedValue r s) = asyncQueue s)"
  by (simp add: invokeYieldable_throws handleYieldedValue_yieldable)

theorem handler_failure_is_reported_only_witness:
  "prop_yieldable example_throwing_yieldable = Some (Throws (JStr ''boom''))
   \<and> truthy example_throwing_yieldable \<and> \<not> instanceof_RawValue example_throwing_yieldable
   \<and> events (handleYieldedValue (yielded example_throwing_yieldable) example_instance) =
       [Delegate_getYieldContext, Yieldable_called 1,
        Env_reportUncaughtRejection AtInvokeYieldable (JStr ''boom'')]
   \<and> state (handleYieldedValue (yielded example_throwing_yieldable) example_instance) =
       INITIAL_STATE
   \<and> asyncQueue (handleYieldedValue (yielded example_throwing_yieldable) example_instance) = []"
proof -
  have a: "prop_yieldable example_throwing_yieldable = Some (Throws (JStr ''boom''))"
    by (simp add: example_throwing_yieldable_def)
  have b: "truthy example_throwing_yieldable \<and> \<not> instanceof_RawValue example_throwing_yieldable
      \<and> sr_value (yielded example_throwing_yieldable) = example_throwing_yieldable"
    by (simp add: yielded_def example_throwing_yieldable_def)
  have c: "events example_instance = []" "index example_instance = 1"
    "state example_instance = INITIAL_STATE" "asyncQueue example_instance = []"
    by (simp_all add: example_instance_def new_TaskInstanceState_def)
  note t = handler_failure_is_reported_only
    [of example_throwing_yieldable "JStr ''boom''" example_instance
        "yielded example_throwing_yieldable", rule_format, OF a, THEN conjunct2, rule_format, OF b]
  show ?thesis
    using a b c t by simp
qed

subsection \<open>Steps of the engine\<close>

lemma view_emit [simp]: "quiet e \<Longrightarrow> view (emit e s) = view s"
  by (simp add: view_def quiet_def unhandled_reports_def callback_calls_def terminal_events_def)

lemma view_upd [simp]:
  "view (s\<lparr>asyncQueue := q\<rparr>) = view s"
  "view (s\<lparr>index := i\<rparr>) = view s"
  "view (s\<lparr>disposers := ds\<rparr>) = view s"
  "view (s\<lparr>cancelRequest := c\<rparr>) = view s"
  "view (s\<lparr>generatorState := g\<rparr>) = view s"
  "view (s\<lparr>expectsLinkedYield := b\<rparr>) = view s"
  "view (s\<lparr>has_defer := b\<rparr>) = view s"
  by (simp_all add: view_def unhandled_reports_def callback_calls_def terminal_events_def)

lemma view_env_async [simp]: "view (env_async t s) = view s"
  by (simp add: env_async_def)

lemma quiet_simps [simp]:
  "quiet (Delegate_setState fs)" "quiet Delegate_onStarted" "quiet Delegate_getYieldContext"
  "quiet (Env_reportUncaughtRejection AtInvokeYieldable e)" "quiet Env_defer"
  "quiet (Defer_resolve v)" "quiet (Defer_reject v)" "quiet (Console_log t)" "quiet Console_warn"
  "quiet (Disposer_called d r)" "quiet (Parent_proceedChecked p i k v)" "quiet (Yieldable_called i)"
  "quiet (Then_called i)" "quiet (Generator_step v k)"
  by (simp_all add: quiet_def)

lemma view_events_append:
  "list_all quiet es \<Longrightarrow> view (s\<lparr>events := events s @ es\<rparr>) = view s"
  by (induction es rule: rev_induct)
     (simp_all add: view_def quiet_def unhandled_reports_def callback_calls_def terminal_events_def)

lemma view_addDisposer [simp]: "view (addDisposer d s) = view s"
  by (simp add: addDisposer_def split: jsval.splits)

lemma view_dispose [simp]: "view (dispose r s) = view s"
  by (simp add: dispose_eq view_def unhandled_reports_def callback_calls_def terminal_events_def
      filter_empty_conv)

lemma view_advanceIndex [simp]: "view (snd (advanceIndex i s)) = view s"
  by (simp add: advanceIndex_def)

lemma view_requestCancel [simp]: "view (snd (requestCancel r s)) = view s"
  by (simp add: requestCancel_def)

lemma view_proceedAsync [simp]: "view (proceedAsync k v s) = view s"
  by (simp add: proceedAsync_eq)

lemma view_proceedChecked [simp]: "view (proceedChecked i k v s) = view s"
  by (simp add: proceedChecked_def advanceIndex_def requestCancel_def proceedWithCancelAsync_def)

lemma view_invokeYieldable [simp]: "view (invokeYieldable v s) = view s"
  by (simp add: invokeYieldable_def Let_def split: option.splits call_result.splits)

lemma view_handleYieldedValue [simp]: "view (handleYieldedValue r s) = view s"
  by (simp add: handleYieldedValue_def Let_def proceedWithSimpleValue_def
      handleYieldedUnknownThenable_def)

lemma view_generatorStep [simp]: "view (snd (generatorStep v k s)) = view s"
  by (simp add: generatorStep_def Let_def split: prod.splits)

lemma view_setState_hasStarted [simp]: "view (setState [F_hasStarted b] s) = view s"
proof -
  have "view (s\<lparr>state := (state s)\<lparr>hasStarted := b\<rparr>\<rparr>) = view s"
    by (simp add: view_def unhandled_reports_def callback_calls_def terminal_events_def)
  then show ?thesis by (simp add: setState_def Object_assign_def)
qed

lemma advanced_refl: "\<not> isFinished (state s) \<Longrightarrow> advanced s s"
  by (simp add: advanced_def)

lemma advanced_view:
  "view s1 = view s \<Longrightarrow> advanced s1 s' \<Longrightarrow> advanced s s'"
  by (simp add: advanced_def view_def)

lemma advanced_view_after:
  "advanced s s1 \<Longrightarrow> view s' = view s1 \<Longrightarrow> advanced s s'"
  by (simp add: advanced_def view_def)

lemma unfinished_view: "view s1 = view s \<Longrightarrow> isFinished (state s1) = isFinished (state s)"
  by (simp add: view_def)

lemma filter_callback_events [simp]:
  "filter is_callback_call (concat (map (callback_events st) cbs)) = map FinalizeCallback_called cbs"
proof (induction cbs)
  case Nil then show ?case by simp
next
  case (Cons cb cbs)
  then show ?case by (cases cb) (simp_all split: option.splits completion.splits)
qed

lemma filter_unhandled_callback_events [simp]:
  "filter is_unhandled_report (concat (map (callback_events st) cbs)) = []"
proof (induction cbs)
  case Nil then show ?case by simp
next
  case (Cons cb cbs)
  then show ?case by (cases cb) (simp_all split: option.splits completion.splits)
qed

lemma filter_defer_events [simp]:
  "filter is_callback_call (defer_events s) = []"
  "filter is_unhandled_report (defer_events s) = []"
  "filter is_terminal (defer_events s) = []"
  by (simp_all add: defer_events_def)

lemma finalized_projections [simp]:
  "isFinished (state (finalized fs s))"
  "unhandled_reports (finalized fs s) = unhandled_reports s"
  by (simp_all add: unhandled_reports_def)

lemma callback_calls_finalized [simp]:
  "list_all inert (finalizeCallbacks s) \<Longrightarrow>
   callback_calls (finalized fs s) =
     callback_calls s @ map FinalizeCallback_called (finalizeCallbacks s)"
  by (simp add: callback_calls_def rerun_events_inert)

lemma projections_emit [simp]:
  "unhandled_reports (emit e s) = unhandled_reports s @ (if is_unhandled_report e then [e] else [])"
  "callback_calls (emit e s) = callback_calls s @ (if is_callback_call e then [e] else [])"
  "body_steps (emit e s) = body_steps s @ (if is_generator_step e then [e] else [])"
  by (simp_all add: unhandled_reports_def callback_calls_def body_steps_def)

lemma advanced_finalized:
  "is_terminal t \<Longrightarrow> advanced s (emit t (finalized fs s))"
  by (cases t) (simp_all add: advanced_def)

lemma view_cancel_logged [simp]: "view (cancel_logged r s) = view s"
  by (simp add: cancel_logged_def)

lemma advanced_finalizeWithCancel:
  "\<not> isFinished (state s) \<Longrightarrow> advanced s (instance_of (finalizeWithCancel s))"
proof (cases "cancelRequest s")
  case None
  assume "\<not> isFinished (state s)"
  with None show ?thesis by (simp add: finalizeWithCancel_def advanced_refl)
next
  case (Some request)
  have "advanced (cancel_logged request s)
          (emit (Delegate_onCancel (reason request))
             (finalized (cancel_fields request s) (cancel_logged request s)))"
    by (rule advanced_finalized) simp
  then have "advanced s
          (emit (Delegate_onCancel (reason request))
             (finalized (cancel_fields request s) (cancel_logged request s)))"
    by (rule advanced_view [rotated]) simp
  then show ?thesis by (simp add: finalizeWithCancel_eq [OF Some])
qed

lemma advanced_finalize:
  "\<not> isFinished (state s) \<Longrightarrow> cs \<noteq> COMPLETION_CANCEL \<Longrightarrow>
   advanced s (instance_of (finalize v cs s))"
proof (cases "cancelRequest s")
  case (Some request)
  assume "\<not> isFinished (state s)"
  then show ?thesis
    by (simp add: finalize_cancel_eq [OF Some] advanced_finalizeWithCancel)
next
  case None
  assume "cs \<noteq> COMPLETION_CANCEL"
  then show ?thesis
    by (cases cs)
       (simp_all add: finalize_success_eq [OF None] finalize_error_eq [OF None] advanced_finalized)
qed

lemma advanced_handleResolvedContinueValue:
  assumes "\<not> isFinished (state s)"
  shows "advanced s (instance_of (handleResolvedContinueValue k v s))"
proof -
  obtain r s1 where g: "generatorStep v k s = (r, s1)" by (cases "generatorStep v k s")
  then have v1: "view s1 = view s" using view_generatorStep [of v k s] by simp
  obtain a s2 where a: "advanceIndex (index s) s1 = (a, s2)" by (cases "advanceIndex (index s) s1")
  then have v2: "view s2 = view s" using view_advanceIndex [of "index s" s1] v1 by simp
  then have u2: "\<not> isFinished (state s2)" using assms unfinished_view by blast
  have c1: "advanced s s2" using v2 u2 advanced_refl advanced_view by blast
  have c2: "advanced s (instance_of (finalize (sr_value r) COMPLETION_ERROR s2))"
    using advanced_finalize [OF u2, of COMPLETION_ERROR "sr_value r"] v2 advanced_view by blast
  have c3: "advanced s (handleYieldedValue r s2)"
    using c1 by (rule advanced_view_after) simp
  show ?thesis using g a c1 c2 c3
    by (simp add: handleResolvedContinueValue_def Let_def)
qed

lemma advanced_handleResolvedReturnedValue:
  "\<not> isFinished (state s) \<Longrightarrow> advanced s (instance_of (handleResolvedReturnedValue k v s))"
  by (cases k) (simp_all add: handleResolvedReturnedValue_def advanced_finalize advanced_refl)

lemma advanced_proceedSync:
  assumes "\<not> isFinished (state s)"
  shows "advanced s (instance_of (proceedSync k v s))"
proof -
  let ?s1 = "dispose JUndefined s"
  have v1: "view ?s1 = view s" by simp
  then have u1: "\<not> isFinished (state ?s1)" using assms unfinished_view by blast
  have "advanced s (instance_of (handleResolvedReturnedValue k v ?s1))"
    using advanced_handleResolvedReturnedValue [OF u1] v1 advanced_view by blast
  moreover have "advanced s (instance_of (handleResolvedContinueValue k v ?s1))"
    using advanced_handleResolvedContinueValue [OF u1] v1 advanced_view by blast
  ultimately show ?thesis using assms by (simp add: proceedSync_def Let_def)
qed

lemma advanced_start:
  assumes "\<not> isFinished (state s)"
  shows "advanced s (instance_of (start s))"
proof (cases "hasStarted (state s) \<or> cancelRequest s \<noteq> None")
  case True
  with assms show ?thesis by (simp add: start_def advanced_refl)
next
  case False
  let ?s1 = "setState [F_hasStarted True] s"
  have v1: "view ?s1 = view s" by simp
  then have u1: "\<not> isFinished (state ?s1)" using assms unfinished_view by blast
  have a: "advanced s (instance_of (proceedSync YIELDABLE_CONTINUE JUndefined ?s1))"
    using advanced_proceedSync [OF u1] v1 advanced_view by blast
  show ?thesis
  proof (cases "proceedSync YIELDABLE_CONTINUE JUndefined ?s1")
    case (Ok s2)
    with a have "advanced s s2" by simp
    then have "advanced s (emit Delegate_onStarted s2)"
      by (rule advanced_view_after) simp
    with False Ok show ?thesis by (simp add: start_def)
  next
    case (Threw e s2)
    with a False show ?thesis by (simp add: start_def)
  qed
qed

lemma advanced_cancel:
  assumes "\<not> isFinished (state s)"
  shows "advanced s (instance_of (cancel r s))"
proof (cases "cancelRequest s")
  case (Some request)
  with assms show ?thesis by (simp add: cancel_def requestCancel_def advanced_refl)
next
  case None
  let ?s1 = "s\<lparr>cancelRequest := Some (CancelRequest CANCEL_KIND_EXPLICIT r)\<rparr>"
  have v1: "view ?s1 = view s" by simp
  then have u1: "\<not> isFinished (state ?s1)" using assms by simp
  have a: "advanced s (instance_of (finalizeWithCancel ?s1))"
    using advanced_finalizeWithCancel [OF u1] v1 advanced_view by blast
  have b: "advanced s (proceedWithCancelAsync ?s1)"
    using assms by (simp add: advanced_view_after [OF advanced_refl] proceedWithCancelAsync_def)
  show ?thesis using None assms a b
    by (simp add: cancel_def requestCancel_def)
qed

lemma registered_append: "registered (cs @ ds) = registered cs @ registered ds"
  by (induction cs rule: registered.induct) simp_all

subsection \<open>Calls on a finished instance\<close>

lemma finished_proceedSync: "isFinished (state s) \<Longrightarrow> proceedSync k v s = Ok s"
  by (simp add: proceedSync_def)

lemma finished_proceedChecked: "isFinished (state s) \<Longrightarrow> proceedChecked i k v s = s"
  by (simp add: proceedChecked_def)

lemma finished_cancel: "isFinished (state s) \<Longrightarrow> cancel r s = Ok s"
  by (simp add: cancel_def requestCancel_def)

lemma finished_start:
  "isFinished (state s) \<Longrightarrow>
   start s = Ok (if hasStarted (state s) \<or> cancelRequest s \<noteq> None then s
                 else emit Delegate_onStarted (setState [F_hasStarted True] s))"
  by (simp add: start_def proceedSync_def setState_def Object_assign_def)

lemma finished_run_thunk:
  "isFinished (state s) \<Longrightarrow>
   run_thunk t s =
     Ok (case t of
           ProceedSyncThunk k v \<Rightarrow> s
         | ReportUnhandledThunk \<Rightarrow>
             if \<not> asyncErrorsHandled s
             then emit (Env_reportUncaughtRejection AtUnhandledTaskError (state_error (state s))) s
             else s)"
  by (cases t) (simp_all add: finished_proceedSync)

lemma settled_refl: "isFinished (state s) \<Longrightarrow> settled s s"
  by (simp add: settled_def)

lemma settled_trans: "settled s s1 \<Longrightarrow> settled s1 s2 \<Longrightarrow> settled s s2"
  by (simp add: settled_def)

lemma filter_steps_defer_events [simp]: "filter is_generator_step (defer_events s) = []"
  by (simp add: defer_events_def)

lemma settled_runFinalizeCallbacks:
  "isFinished (state s) \<Longrightarrow> settled s (runFinalizeCallbacks s)"
  by (simp add: settled_def body_steps_def terminal_events_def)

lemma settled_onFinalize: "isFinished (state s) \<Longrightarrow> settled s (onFinalize cb s)"
proof -
  assume f: "isFinished (state s)"
  let ?s1 = "s\<lparr>finalizeCallbacks := finalizeCallbacks s @ [cb]\<rparr>"
  have "settled s ?s1" using f by (simp add: settled_def body_steps_def terminal_events_def)
  moreover have "settled ?s1 (runFinalizeCallbacks ?s1)"
    using f by (intro settled_runFinalizeCallbacks) simp
  ultimately have "settled s (runFinalizeCallbacks ?s1)" by (rule settled_trans)
  then show ?thesis using f by (simp add: onFinalize_unfold Let_def)
qed

lemma settled_promise: "isFinished (state s) \<Longrightarrow> settled s (promise s)"
  by (simp add: settled_def promise_def maybeResolveDefer_eq emit_def body_steps_def
      terminal_events_def)

lemma settled_exec:
  assumes f: "isFinished (state s)"
  shows "settled s (exec c s)"
proof (cases c)
  case Call_start
  then show ?thesis using f
    by (simp add: exec_def finished_start settled_def setState_def Object_assign_def
        body_steps_def terminal_events_def)
next
  case (Call_cancel r)
  then show ?thesis using f by (simp add: exec_def finished_cancel settled_refl)
next
  case (Call_proceedChecked i k v)
  then show ?thesis using f by (simp add: exec_def finished_proceedChecked settled_refl)
next
  case (Call_proceedSync k v)
  then show ?thesis using f by (simp add: exec_def finished_proceedSync settled_refl)
next
  case (Call_onFinalize cb)
  then show ?thesis using f by (simp add: exec_def settled_onFinalize)
next
  case Call_promise
  then show ?thesis using f by (simp add: exec_def settled_promise)
next
  case (Call_onYielded p i)
  let ?s1 = "s\<lparr>asyncErrorsHandled := True\<rparr>"
  have "settled s ?s1" using f by (simp add: settled_def body_steps_def terminal_events_def)
  moreover have "settled ?s1 (onFinalize (ResumeParent p i) ?s1)"
    using f by (intro settled_onFinalize) simp
  ultimately have "settled s (onFinalize (ResumeParent p i) ?s1)" by (rule settled_trans)
  with Call_onYielded show ?thesis by (simp add: exec_def onYielded_def Let_def)
next
  case (Run_async n)
  show ?thesis
  proof (cases "n < length (asyncQueue s)")
    case False
    with Run_async f show ?thesis by (simp add: exec_def settled_refl)
  next
    case True
    let ?s1 = "s\<lparr>asyncQueue := take n (asyncQueue s) @ drop (Suc n) (asyncQueue s)\<rparr>"
    have f1: "isFinished (state ?s1)" using f by simp
    have "settled s ?s1" using f by (simp add: settled_def body_steps_def terminal_events_def)
    moreover have "settled ?s1 (instance_of (run_thunk (asyncQueue s ! n) ?s1))"
      using f by (simp add: finished_run_thunk [OF f1] settled_def split: thunk.splits)
    ultimately have "settled s (instance_of (run_thunk (asyncQueue s ! n) ?s1))"
      by (rule settled_trans)
    with Run_async True show ?thesis by (simp add: exec_def)
  qed
qed

lemma settled_run: "isFinished (state s) \<Longrightarrow> settled s (run cs s)"
proof (induction cs arbitrary: s)
  case Nil then show ?case by (simp add: settled_refl)
next
  case (Cons c cs)
  have a: "settled s (exec c s)" using Cons.prems by (rule settled_exec)
  then have "isFinished (state (exec c s))" by (simp add: settled_def)
  then have "settled (exec c s) (run cs (exec c s))" by (rule Cons.IH)
  with a show ?case using settled_trans by simp
qed

lemma advanced_exec_of_view:
  "\<not> isFinished (state s) \<Longrightarrow> view s' = view s \<Longrightarrow> advanced s s'"
  using advanced_refl advanced_view_after by blast

lemma unfinished_onFinalize:
  "\<not> isFinished (state s) \<Longrightarrow>
   onFinalize cb s = s\<lparr>finalizeCallbacks := finalizeCallbacks s @ [cb]\<rparr>"
  by (simp add: onFinalize_unfold Let_def)

lemma unfinished_promise:
  "\<not> isFinished (state s) \<Longrightarrow>
   promise s = (if has_defer s then s
                else (emit Env_defer s)\<lparr>has_defer := True, asyncErrorsHandled := True\<rparr>)"
  by (simp add: promise_def maybeResolveDefer_def)

lemma unfinished_onYielded:
  "\<not> isFinished (state s) \<Longrightarrow>
   snd (onYielded p i s) =
     s\<lparr>asyncErrorsHandled := True,
       finalizeCallbacks := finalizeCallbacks s @ [ResumeParent p i]\<rparr>"
  by (simp add: onYielded_def onFinalize_unfold Let_def)

lemma progressed_advanced:
  "advanced s s' \<Longrightarrow> registered [c] = [] \<Longrightarrow> progressed c s s'"
  by (simp add: progressed_def advanced_def)

lemma unfinished_exec:
  assumes u: "\<not> isFinished (state s)"
  shows "progressed c s (exec c s)"
proof (cases c)
  case Call_start
  then show ?thesis using advanced_start [OF u] by (simp add: exec_def progressed_advanced)
next
  case (Call_cancel r)
  then show ?thesis using advanced_cancel [OF u] by (simp add: exec_def progressed_advanced)
next
  case (Call_proceedChecked i k v)
  have "advanced s (proceedChecked i k v s)" using u by (rule advanced_exec_of_view) simp
  with Call_proceedChecked show ?thesis by (simp add: exec_def progressed_advanced)
next
  case (Call_proceedSync k v)
  then show ?thesis using advanced_proceedSync [OF u] by (simp add: exec_def progressed_advanced)
next
  case (Call_onFinalize cb)
  then show ?thesis using u
    by (simp add: exec_def unfinished_onFinalize progressed_def callback_calls_def
        terminal_events_def unhandled_reports_def)
next
  case Call_promise
  then show ?thesis using u
    by (simp add: exec_def unfinished_promise progressed_def callback_calls_def
        terminal_events_def unhandled_reports_def emit_def)
next
  case (Call_onYielded p i)
  then show ?thesis using u
    by (simp add: exec_def unfinished_onYielded progressed_def callback_calls_def
        terminal_events_def unhandled_reports_def)
next
  case (Run_async n)
  show ?thesis
  proof (cases "n < length (asyncQueue s)")
    case False
    with Run_async u show ?thesis by (simp add: exec_def progressed_def)
  next
    case True
    let ?s1 = "s\<lparr>asyncQueue := take n (asyncQueue s) @ drop (Suc n) (asyncQueue s)\<rparr>"
    have v1: "view ?s1 = view s" by simp
    have u1: "\<not> isFinished (state ?s1)" using u by simp
    have e: "exec c s = instance_of (run_thunk (asyncQueue s ! n) ?s1)"
      using Run_async True by (simp add: exec_def)
    have r: "registered [c] = []" using Run_async by simp
    show ?thesis
    proof (cases "asyncQueue s ! n")
      case (ProceedSyncThunk k v)
      have "advanced ?s1 (instance_of (proceedSync k v ?s1))"
        by (rule advanced_proceedSync [OF u1])
      then have "advanced s (instance_of (proceedSync k v ?s1))"
        using v1 advanced_view by blast
      then have "progressed c s (instance_of (proceedSync k v ?s1))"
        using r by (rule progressed_advanced)
      then show ?thesis by (simp only: e ProceedSyncThunk run_thunk.simps)
    next
      case ReportUnhandledThunk
      have "progressed c s
          (if \<not> asyncErrorsHandled ?s1
           then emit (Env_reportUncaughtRejection AtUnhandledTaskError (state_error (state ?s1))) ?s1
           else ?s1)"
        using u r
        by (simp add: progressed_def callback_calls_def terminal_events_def
            unhandled_reports_def emit_def)
      then show ?thesis
        by (simp only: e ReportUnhandledThunk run_thunk.simps instance_of.simps)
    qed
  qed
qed

lemma filter_callback_events_one [simp]:
  "filter is_callback_call (callback_events st cb) = [FinalizeCallback_called cb]"
  "filter is_unhandled_report (callback_events st cb) = []"
  by (cases cb; simp split: option.splits completion.splits)+

text \<open>One call or turn on a finished instance whose callbacks have run.\<close>

lemma finished_exec_callbacks:
  assumes f: "isFinished (state s)" and e: "finalizeCallbacks s = []"
    and i: "list_all inert (registered [c])"
  shows "finalizeCallbacks (exec c s) = []
     \<and> callback_calls (exec c s) = callback_calls s @ map FinalizeCallback_called (registered [c])"
proof (cases c)
  case Call_start
  then show ?thesis using f e
    by (simp add: exec_def finished_start setState_def callback_calls_def emit_def)
next
  case (Call_cancel r)
  then show ?thesis using f e by (simp add: exec_def finished_cancel)
next
  case (Call_proceedChecked i k v)
  then show ?thesis using f e by (simp add: exec_def finished_proceedChecked)
next
  case (Call_proceedSync k v)
  then show ?thesis using f e by (simp add: exec_def finished_proceedSync)
next
  case (Call_onFinalize cb)
  then show ?thesis using f e i
    by (simp add: exec_def onFinalize_unfold Let_def callback_calls_def rerun_events_inert
        del: callback_events.simps)
next
  case Call_promise
  then show ?thesis using f e
    by (simp add: exec_def promise_def maybeResolveDefer_eq callback_calls_def emit_def)
next
  case (Call_onYielded p i)
  then show ?thesis using f e
    by (simp add: exec_def onYielded_def onFinalize_unfold Let_def
        callback_calls_def rerun_events_inert del: callback_events.simps)
next
  case (Run_async n)
  let ?s1 = "s\<lparr>asyncQueue := take n (asyncQueue s) @ drop (Suc n) (asyncQueue s)\<rparr>"
  have f1: "isFinished (state ?s1)" using f by simp
  show ?thesis using Run_async e
    by (simp add: exec_def finished_run_thunk [OF f1] callback_calls_def emit_def
        split: thunk.splits)
qed

lemma finished_exec_handled:
  assumes f: "isFinished (state s)" and h: "asyncErrorsHandled s"
  shows "asyncErrorsHandled (exec c s) \<and> unhandled_reports (exec c s) = unhandled_reports s"
proof (cases c)
  case Call_start
  then show ?thesis using f h
    by (simp add: exec_def finished_start setState_def unhandled_reports_def emit_def)
next
  case (Call_cancel r)
  then show ?thesis using f h by (simp add: exec_def finished_cancel)
next
  case (Call_proceedChecked i k v)
  then show ?thesis using f h by (simp add: exec_def finished_proceedChecked)
next
  case (Call_proceedSync k v)
  then show ?thesis using f h by (simp add: exec_def finished_proceedSync)
next
  case (Call_onFinalize cb)
  then show ?thesis using f h
    by (simp add: exec_def onFinalize_unfold Let_def unhandled_reports_def)
next
  case Call_promise
  then show ?thesis using f h
    by (simp add: exec_def promise_def maybeResolveDefer_eq unhandled_reports_def emit_def)
next
  case (Call_onYielded p i)
  then show ?thesis using f h
    by (simp add: exec_def onYielded_def onFinalize_unfold Let_def
        unhandled_reports_def del: callback_events.simps)
next
  case (Run_async n)
  let ?s1 = "s\<lparr>asyncQueue := take n (asyncQueue s) @ drop (Suc n) (asyncQueue s)\<rparr>"
  have f1: "isFinished (state ?s1)" using f by simp
  show ?thesis using Run_async h
    by (simp add: exec_def finished_run_thunk [OF f1] unhandled_reports_def
        split: thunk.splits)
qed

subsection \<open>The tickets that the engine hands out\<close>

lemma issued_emit [simp]: "issued (emit e s) = issued s @ ticket_of e"
  by (simp add: issued_def)

lemma issued_upd [simp]:
  "issued (s\<lparr>generatorState := g\<rparr>) = issued s"
  "issued (s\<lparr>state := st\<rparr>) = issued s"
  "issued (s\<lparr>index := i\<rparr>) = issued s"
  "issued (s\<lparr>disposers := ds\<rparr>) = issued s"
  "issued (s\<lparr>finalizeCallbacks := fc\<rparr>) = issued s"
  "issued (s\<lparr>cancelRequest := c\<rparr>) = issued s"
  "issued (s\<lparr>has_defer := b\<rparr>) = issued s"
  "issued (s\<lparr>asyncErrorsHandled := b\<rparr>) = issued s"
  "issued (s\<lparr>expectsLinkedYield := b\<rparr>) = issued s"
  "issued (s\<lparr>asyncQueue := q\<rparr>) = issued s"
  by (simp_all add: issued_def)

lemma issued_env_async [simp]: "issued (env_async t s) = issued s"
  by (simp add: env_async_def)

lemma ticket_of_callback_event: "is_callback_event e \<Longrightarrow> ticket_of e = []"
  by (cases e) simp_all

lemma issued_runFinalizeCallbacks [simp]: "issued (runFinalizeCallbacks s) = issued s"
proof -
  have "concat (map ticket_of (rerun_events s)) = []"
    using rerun_events_kind [of s] by (simp add: list_all_iff ticket_of_callback_event)
  then show ?thesis by (simp add: issued_def)
qed

lemma issued_finalized [simp]: "issued (finalized fs s) = issued s"
  by (simp add: finalized_def) (simp add: issued_def finishing_def)

lemma issued_dispatch [simp]: "issued (instance_of (dispatchFinalizeEvents cs s)) = issued s"
  by (simp add: dispatchFinalizeEvents_def split: option.splits completion.splits)

lemma issued_finalizeShared [simp]: "issued (instance_of (finalizeShared fs s)) = issued s"
  by (simp add: finalizeShared_eq)

lemma issued_finalizeWithCancel [simp]: "issued (instance_of (finalizeWithCancel s)) = issued s"
  by (simp add: finalizeWithCancel_def Let_def split: option.splits)

lemma issued_finalize [simp]: "issued (instance_of (finalize v cs s)) = issued s"
  by (simp add: finalize_def)

lemma issued_dispose [simp]: "issued (dispose r s) = issued s"
  by (simp add: dispose_eq issued_def)

lemma issued_generatorStep [simp]: "issued (snd (generatorStep v k s)) = issued s"
  by (simp add: generatorStep_def Let_def split: prod.splits)

lemma issued_proceedAsync [simp]: "issued (proceedAsync k v s) = issued s"
  by (simp add: proceedAsync_eq)

lemma issued_addDisposer [simp]: "issued (addDisposer d s) = issued s"
  by (simp add: addDisposer_def split: jsval.splits)

lemma issued_handleYieldedValue:
  "set (issued (handleYieldedValue r s)) \<subseteq> insert (index s) (set (issued s))"
  by (auto simp: handleYieldedValue_def Let_def proceedWithSimpleValue_def
      handleYieldedUnknownThenable_def invokeYieldable_def
      split: option.splits call_result.splits if_splits)

lemma issued_handleResolvedContinueValue:
  "set (issued (instance_of (handleResolvedContinueValue k v s)))
     \<subseteq> insert (index s + 1) (set (issued s))"
proof -
  obtain r s1 where g: "generatorStep v k s = (r, s1)" by (cases "generatorStep v k s")
  then have i1: "issued s1 = issued s" "index s1 = index s"
    using issued_generatorStep [of v k s] index_generatorStep [of v k s] by simp_all
  let ?s2 = "s1\<lparr>index := index s1 + 1\<rparr>"
  have "set (issued (handleYieldedValue r ?s2)) \<subseteq> insert (index s + 1) (set (issued s))"
    using issued_handleYieldedValue [of r ?s2] i1 by simp
  then show ?thesis using g i1
    by (simp add: handleResolvedContinueValue_def Let_def advanceIndex_def subset_insertI)
qed

lemma issued_handleResolvedReturnedValue [simp]:
  "issued (instance_of (handleResolvedReturnedValue k v s)) = issued s"
  by (cases k) (simp_all add: handleResolvedReturnedValue_def)

lemma issued_proceedSync:
  "set (issued (instance_of (proceedSync k v s))) \<subseteq> insert (index s + 1) (set (issued s))"
  using issued_handleResolvedContinueValue [of k v "dispose JUndefined s"]
  by (simp add: proceedSync_def Let_def subset_insertI)

lemma issued_start:
  "set (issued (instance_of (start s))) \<subseteq> insert (index s + 1) (set (issued s))"
proof (cases "hasStarted (state s) \<or> cancelRequest s \<noteq> None")
  case True
  then show ?thesis by (auto simp: start_def)
next
  case False
  let ?s1 = "setState [F_hasStarted True] s"
  have "set (issued (instance_of (proceedSync YIELDABLE_CONTINUE JUndefined ?s1)))
          \<subseteq> insert (index s + 1) (set (issued s))"
    using issued_proceedSync [of YIELDABLE_CONTINUE JUndefined ?s1] by (simp add: setState_def)
  then show ?thesis using False
    by (cases "proceedSync YIELDABLE_CONTINUE JUndefined ?s1") (simp_all add: start_def)
qed

lemma issued_cancel [simp]: "issued (instance_of (cancel r s)) = issued s"
  by (simp add: cancel_def requestCancel_def proceedWithCancelAsync_def)

lemma issued_proceedChecked [simp]: "issued (proceedChecked i k v s) = issued s"
  by (simp add: proceedChecked_def advanceIndex_def requestCancel_def proceedWithCancelAsync_def)

lemma issued_onFinalize [simp]: "issued (onFinalize cb s) = issued s"
  by (simp add: onFinalize_unfold Let_def)

lemma issued_promise [simp]: "issued (promise s) = issued s"
  by (simp add: promise_def maybeResolveDefer_eq issued_def defer_events_def)

lemma issued_onYielded [simp]: "issued (snd (onYielded p i s)) = issued s"
  by (simp add: onYielded_def Let_def)

lemma issued_run_thunk:
  "set (issued (instance_of (run_thunk t s))) \<subseteq> insert (index s + 1) (set (issued s))"
  by (cases t) (auto simp: issued_proceedSync subset_insertI)

lemma issued_exec:
  "set (issued (exec c s)) \<subseteq> insert (index s + 1) (set (issued s))"
proof (cases c)
  case (Run_async n)
  let ?s1 = "s\<lparr>asyncQueue := take n (asyncQueue s) @ drop (Suc n) (asyncQueue s)\<rparr>"
  show ?thesis using Run_async issued_run_thunk [of "asyncQueue s ! n" ?s1]
    by (simp add: exec_def subset_insertI)
qed (simp_all add: exec_def issued_start issued_proceedSync subset_insertI)

lemma issued_run:
  "1 \<le> index s \<Longrightarrow> 1 \<notin> set (issued s) \<Longrightarrow> 1 \<notin> set (issued (run cs s))"
proof (induction cs arbitrary: s)
  case Nil then show ?case by simp
next
  case (Cons c cs)
  have "1 \<le> index (exec c s)" using Cons.prems(1) index_exec [of s c] by simp
  moreover have "1 \<notin> set (issued (exec c s))"
    using issued_exec [of c s] Cons.prems by auto
  ultimately show ?case using Cons.IH [of "exec c s"] by simp
qed

text \<open>
  The ticket 1 is never handed out: the index starts at 1, and \<^verbatim>\<open>handleResolvedContinueValue\<close>
  advances it before \<^verbatim>\<open>handleYieldedValue\<close> reads it for a ticket.
\<close>

lemma ticket_one_never_issued:
  "1 \<notin> set (issued (run cs (new_TaskInstanceState body fmt gde dbg pt)))"
  by (rule issued_run) (simp_all add: new_TaskInstanceState_def issued_def)

subsection \<open>One outcome\<close>

lemma one_outcome_exec:
  assumes "length (terminal_events s) = (if isFinished (state s) then 1 else 0)"
  shows "length (terminal_events (exec c s)) = (if isFinished (state (exec c s)) then 1 else 0)"
proof (cases "isFinished (state s)")
  case True
  then have "settled s (exec c s)" by (rule settled_exec)
  with assms True show ?thesis by (simp add: settled_def)
next
  case False
  then have "progressed c s (exec c s)" by (rule unfinished_exec)
  with assms False show ?thesis by (simp add: progressed_def)
qed

lemma one_outcome_run:
  "length (terminal_events s) = (if isFinished (state s) then 1 else 0) \<Longrightarrow>
   length (terminal_events (run cs s)) = (if isFinished (state (run cs s)) then 1 else 0)"
proof (induction cs arbitrary: s)
  case Nil then show ?case by simp
next
  case (Cons c cs)
  from Cons.prems have "length (terminal_events (exec c s))
      = (if isFinished (state (exec c s)) then 1 else 0)"
    by (rule one_outcome_exec)
  then show ?case using Cons.IH by simp
qed

lemma new_instance_fields [simp]:
  "terminal_events (new_TaskInstanceState body fmt gde dbg pt) = []"
  "callback_calls (new_TaskInstanceState body fmt gde dbg pt) = []"
  "finalizeCallbacks (new_TaskInstanceState body fmt gde dbg pt) = []"
  "\<not> isFinished (state (new_TaskInstanceState body fmt gde dbg pt))"
  by (simp_all add: new_TaskInstanceState_def terminal_events_def callback_calls_def
      INITIAL_STATE_def)

subsection \<open>Calls from outside, and the start of a finished instance\<close>

lemma kept_refl [simp]: "kept s s"
  by (simp add: kept_def)

lemma kept_trans: "kept s s1 \<Longrightarrow> kept s1 s2 \<Longrightarrow> kept s s2"
  by (auto simp: kept_def split: if_splits)

lemma kept_same:
  "state s' = state s \<Longrightarrow> cancelRequest s' = cancelRequest s \<Longrightarrow> kept s s'"
  by (simp add: kept_def)

lemma hasStarted_assign:
  "\<forall>b. F_hasStarted b \<notin> set fs \<Longrightarrow> hasStarted (foldl assign_field st fs) = hasStarted st"
proof (induction fs arbitrary: st)
  case Nil then show ?case by simp
next
  case (Cons f fs)
  then show ?case by (cases f) auto
qed

lemma kept_finalized:
  "\<forall>b. F_hasStarted b \<notin> set fs \<Longrightarrow> kept s (finalized fs s)"
  by (simp add: kept_def state_finalized Object_assign_def hasStarted_assign)

lemma kept_emit [simp]: "kept s (emit e s)"
  by (simp add: kept_def)

lemma kept_after_emit: "kept s s' \<Longrightarrow> kept s (emit e s')"
  by (simp add: kept_def)

lemma kept_dispatch: "kept s s' \<Longrightarrow> kept s (instance_of (dispatchFinalizeEvents cs s'))"
  by (simp add: dispatchFinalizeEvents_def kept_after_emit split: option.splits completion.splits)

lemma kept_finalizeShared:
  "\<forall>b. F_hasStarted b \<notin> set fs \<Longrightarrow> kept s (instance_of (finalizeShared fs s))"
  by (simp add: finalizeShared_eq kept_dispatch kept_finalized)

lemma kept_finalizeWithCancel: "kept s (instance_of (finalizeWithCancel s))"
proof (cases "cancelRequest s")
  case None
  then show ?thesis by (simp add: finalizeWithCancel_def)
next
  case (Some request)
  let ?s1 = "if debug s \<or> globalDebuggingEnabled s
             then emit (Console_log (formatCancelReason s (reason request))) s else s"
  have "kept s ?s1" by simp
  moreover have "kept ?s1 (instance_of (finalizeShared
      [F_isCanceled True, F_completionState COMPLETION_CANCEL,
       F_error (JError TASK_CANCELATION_NAME (formatCancelReason s (reason request))),
       F_cancelReason (formatCancelReason s (reason request))] ?s1))"
    by (rule kept_finalizeShared) simp
  ultimately have "kept s (instance_of (finalizeShared
      [F_isCanceled True, F_completionState COMPLETION_CANCEL,
       F_error (JError TASK_CANCELATION_NAME (formatCancelReason s (reason request))),
       F_cancelReason (formatCancelReason s (reason request))] ?s1))"
    by (rule kept_trans)
  then show ?thesis using Some
    by (simp add: finalizeWithCancel_def Let_def del: kept_emit)
qed

lemma kept_finalize: "kept s (instance_of (finalize v cs s))"
proof (cases "cancelRequest s = None")
  case False
  then show ?thesis by (simp add: finalize_def kept_finalizeWithCancel)
next
  case True
  have "kept s (instance_of (finalizeShared
      (F_completionState cs #
         (case cs of
            COMPLETION_SUCCESS \<Rightarrow> [F_isSuccessful True, F_value v]
          | COMPLETION_ERROR \<Rightarrow> [F_isError True, F_error v]
          | COMPLETION_CANCEL \<Rightarrow> [F_error v])) s))"
    by (rule kept_finalizeShared) (cases cs; simp)
  with True show ?thesis by (simp add: finalize_def)
qed

lemma kept_proceedAsync [simp]: "kept s (proceedAsync k v s)"
  by (simp add: kept_def proceedAsync_eq)

lemma kept_addDisposer [simp]: "kept s (addDisposer d s)"
  by (simp add: kept_def)

lemma kept_handleYieldedValue: "kept s (handleYieldedValue r s)"
  by (simp add: kept_def handleYieldedValue_def Let_def proceedWithSimpleValue_def
      handleYieldedUnknownThenable_def invokeYieldable_def proceedAsync_eq
      split: option.splits call_result.splits)

lemma kept_generatorStep: "kept s (snd (generatorStep v k s))"
  by (simp add: kept_def generatorStep_def Let_def split: prod.splits)

lemma kept_handleResolvedContinueValue:
  "kept s (instance_of (handleResolvedContinueValue k v s))"
proof -
  obtain r s1 where g: "generatorStep v k s = (r, s1)" by (cases "generatorStep v k s")
  then have k1: "kept s s1" using kept_generatorStep [of s v k] by simp
  obtain a s2 where a: "advanceIndex (index s) s1 = (a, s2)" by (cases "advanceIndex (index s) s1")
  then have "kept s1 s2" by (auto simp: advanceIndex_def kept_def split: if_splits)
  with k1 have k2: "kept s s2" by (rule kept_trans)
  have c2: "kept s (instance_of (finalize (sr_value r) COMPLETION_ERROR s2))"
    using k2 kept_finalize by (rule kept_trans)
  have c3: "kept s (handleYieldedValue r s2)"
    using k2 kept_handleYieldedValue by (rule kept_trans)
  show ?thesis using g a k2 c2 c3
    by (simp add: handleResolvedContinueValue_def Let_def)
qed

lemma kept_handleResolvedReturnedValue:
  "kept s (instance_of (handleResolvedReturnedValue k v s))"
  by (cases k) (simp_all add: handleResolvedReturnedValue_def kept_finalize)

lemma kept_dispose [simp]: "kept s (dispose r s)"
  by (simp add: kept_def dispose_eq)

lemma kept_proceedSync: "kept s (instance_of (proceedSync k v s))"
proof -
  let ?s1 = "dispose JUndefined s"
  have "kept s (instance_of (handleResolvedReturnedValue k v ?s1))"
    using kept_dispose kept_handleResolvedReturnedValue by (rule kept_trans)
  moreover have "kept s (instance_of (handleResolvedContinueValue k v ?s1))"
    using kept_dispose kept_handleResolvedContinueValue by (rule kept_trans)
  ultimately show ?thesis by (simp add: proceedSync_def Let_def)
qed

lemma kept_start: "kept s (instance_of (start s))"
proof (cases "hasStarted (state s) \<or> cancelRequest s \<noteq> None")
  case True
  then show ?thesis by (simp add: start_def)
next
  case False
  let ?s1 = "setState [F_hasStarted True] s"
  have k1: "kept s ?s1" by (simp add: kept_def setState_def Object_assign_def)
  have "kept s (instance_of (proceedSync YIELDABLE_CONTINUE JUndefined ?s1))"
    using k1 kept_proceedSync by (rule kept_trans)
  then show ?thesis using False
    by (cases "proceedSync YIELDABLE_CONTINUE JUndefined ?s1")
       (simp_all add: start_def kept_after_emit)
qed

lemma kept_cancel: "kept s (instance_of (cancel r s))"
proof (cases "cancelRequest s \<noteq> None \<or> isFinished (state s)")
  case True
  then show ?thesis by (auto simp: cancel_def requestCancel_def)
next
  case False
  let ?s1 = "s\<lparr>cancelRequest := Some (CancelRequest CANCEL_KIND_EXPLICIT r)\<rparr>"
  have k1: "kept s ?s1" using False by (simp add: kept_def)
  have a: "kept s (instance_of (finalizeWithCancel ?s1))"
    using k1 kept_finalizeWithCancel by (rule kept_trans)
  have b: "kept s (proceedWithCancelAsync ?s1)"
    using False by (simp add: kept_def proceedWithCancelAsync_def proceedAsync_eq)
  show ?thesis using False a b by (simp add: cancel_def requestCancel_def)
qed

lemma kept_proceedChecked: "kept s (proceedChecked i k v s)"
  by (simp add: kept_def proceedChecked_def advanceIndex_def requestCancel_def
      proceedWithCancelAsync_def proceedAsync_eq)

lemma kept_runFinalizeCallbacks: "kept s (runFinalizeCallbacks s)"
  by (simp add: kept_def)

lemma kept_onFinalize: "kept s (onFinalize cb s)"
proof -
  let ?s1 = "s\<lparr>finalizeCallbacks := finalizeCallbacks s @ [cb]\<rparr>"
  have "kept s ?s1" by (simp add: kept_def)
  moreover have "kept ?s1 (runFinalizeCallbacks ?s1)" by (rule kept_runFinalizeCallbacks)
  ultimately have "kept s (runFinalizeCallbacks ?s1)" by (rule kept_trans)
  then show ?thesis by (simp add: onFinalize_unfold Let_def kept_def)
qed

lemma kept_promise: "kept s (promise s)"
  by (simp add: kept_def promise_def maybeResolveDefer_eq)

lemma kept_onYielded: "kept s (snd (onYielded p i s))"
proof -
  let ?s1 = "s\<lparr>asyncErrorsHandled := True\<rparr>"
  have "kept s ?s1" by (simp add: kept_def)
  then have "kept s (onFinalize (ResumeParent p i) ?s1)"
    using kept_onFinalize by (rule kept_trans)
  then show ?thesis by (simp add: onYielded_def Let_def)
qed

lemma kept_run_thunk: "kept s (instance_of (run_thunk t s))"
  by (cases t) (simp_all add: kept_proceedSync)

lemma kept_exec: "kept s (exec c s)"
proof (cases c)
  case (Run_async n)
  let ?s1 = "s\<lparr>asyncQueue := take n (asyncQueue s) @ drop (Suc n) (asyncQueue s)\<rparr>"
  have "kept s ?s1" by (simp add: kept_def)
  then have "kept s (instance_of (run_thunk (asyncQueue s ! n) ?s1))"
    using kept_run_thunk by (rule kept_trans)
  with Run_async show ?thesis by (simp add: exec_def)
qed (simp_all add: exec_def kept_start kept_cancel kept_proceedChecked kept_proceedSync
      kept_onFinalize kept_promise kept_onYielded)

lemma committed_exec: "committed s \<Longrightarrow> committed (exec c s)"
  using kept_exec [of s c] by (auto simp: committed_def kept_def split: if_splits)

lemma committed_run: "committed s \<Longrightarrow> committed (run cs s)"
  by (induction cs arbitrary: s) (simp_all add: committed_exec)

lemma untouched_exec:
  assumes u: "untouched s" and n: "\<not> committed s" and l: "lawful c"
  shows "committed (exec c s) \<or> untouched (exec c s)"
proof (cases c)
  case Call_start
  have "hasStarted (state (setState [F_hasStarted True] s))"
    by (simp add: setState_def Object_assign_def)
  then have "committed (setState [F_hasStarted True] s)" by (simp add: committed_def)
  moreover have "kept (setState [F_hasStarted True] s) (instance_of (start s))"
    using n kept_proceedSync [of "setState [F_hasStarted True] s" YIELDABLE_CONTINUE JUndefined]
    by (cases "proceedSync YIELDABLE_CONTINUE JUndefined (setState [F_hasStarted True] s)")
       (simp_all add: start_def committed_def kept_after_emit)
  ultimately have "committed (instance_of (start s))"
    by (auto simp: committed_def kept_def split: if_splits)
  with Call_start show ?thesis by (simp add: exec_def)
next
  case (Call_cancel r)
  let ?s1 = "s\<lparr>cancelRequest := Some (CancelRequest CANCEL_KIND_EXPLICIT r)\<rparr>"
  have "kept ?s1 (instance_of (finalizeWithCancel ?s1))" by (rule kept_finalizeWithCancel)
  then have "committed (instance_of (finalizeWithCancel ?s1))"
    by (simp add: committed_def kept_def)
  with Call_cancel u n show ?thesis
    by (simp add: exec_def cancel_def requestCancel_def committed_def untouched_def)
next
  case (Call_proceedChecked i k v)
  with u l show ?thesis
    by (simp add: exec_def proceedChecked_def advanceIndex_def untouched_def)
next
  case (Call_proceedSync k v)
  with l show ?thesis by simp
next
  case (Call_onFinalize cb)
  with u show ?thesis by (simp add: exec_def unfinished_onFinalize untouched_def)
next
  case Call_promise
  with u show ?thesis by (simp add: exec_def unfinished_promise untouched_def)
next
  case (Call_onYielded p i)
  with u show ?thesis by (simp add: exec_def unfinished_onYielded untouched_def)
next
  case (Run_async n)
  with u show ?thesis by (simp add: exec_def untouched_def)
qed

lemma lawful_exec:
  "lawful c \<Longrightarrow> committed s \<or> untouched s \<Longrightarrow> committed (exec c s) \<or> untouched (exec c s)"
  using committed_exec untouched_exec by blast

lemma lawful_run:
  "list_all lawful cs \<Longrightarrow> committed s \<or> untouched s \<Longrightarrow>
   committed (run cs s) \<or> untouched (run cs s)"
proof (induction cs arbitrary: s)
  case Nil then show ?case by simp
next
  case (Cons c cs)
  from Cons.prems have "committed (exec c s) \<or> untouched (exec c s)"
    by (simp add: lawful_exec)
  with Cons.prems Cons.IH [of "exec c s"] show ?case by simp
qed

lemma lawful_finished_committed:
  assumes "list_all lawful cs"
    and "isFinished (state (run cs (new_TaskInstanceState body fmt gde dbg pt)))"
  shows "committed (run cs (new_TaskInstanceState body fmt gde dbg pt))"
proof -
  have "untouched (new_TaskInstanceState body fmt gde dbg pt)"
    by (simp add: untouched_def new_TaskInstanceState_def INITIAL_STATE_def)
  with assms(1) have "committed (run cs (new_TaskInstanceState body fmt gde dbg pt))
      \<or> untouched (run cs (new_TaskInstanceState body fmt gde dbg pt))"
    by (simp add: lawful_run)
  with assms(2) show ?thesis by (auto simp: untouched_def)
qed

text \<open>
  C2. \<^verbatim>\<open>isFinished\<close> is set at most once. On a finished instance \<^verbatim>\<open>cancel\<close>,
  \<^verbatim>\<open>proceedChecked\<close> and \<^verbatim>\<open>proceedSync\<close> are no-ops, and whatever is called afterwards the
  instance stays finished, its index and its recorded outcome stay as they are and no further
  terminal event is dispatched: finalization is not reached again. From its construction on,
  an instance has dispatched exactly one terminal event when it is finished, and none before.
  And on every instance that the calls from outside have brought to its end, \<^verbatim>\<open>start\<close> is a
  no-op as well, then and after any further calls.
\<close>
theorem finished_is_final:
  "(isFinished (state s) \<longrightarrow>
      cancel r s = Ok s
      \<and> proceedChecked i k v s = s
      \<and> proceedSync k v s = Ok s
      \<and> (hasStarted (state s) \<or> cancelRequest s \<noteq> None \<longrightarrow> start s = Ok s)
      \<and> isFinished (state (run cs s))
      \<and> index (run cs s) = index s
      \<and> completionState (state (run cs s)) = completionState (state s)
      \<and> isSuccessful (state (run cs s)) = isSuccessful (state s)
      \<and> isError (state (run cs s)) = isError (state s)
      \<and> isCanceled (state (run cs s)) = isCanceled (state s)
      \<and> state_value (state (run cs s)) = state_value (state s)
      \<and> state_error (state (run cs s)) = state_error (state s)
      \<and> terminal_events (run cs s) = terminal_events s)
   \<and> length (terminal_events (run cs (new_TaskInstanceState body fmt gde dbg pt))) =
        (if isFinished (state (run cs (new_TaskInstanceState body fmt gde dbg pt))) then 1 else 0)
   \<and> (list_all lawful cs
        \<and> isFinished (state (run cs (new_TaskInstanceState body fmt gde dbg pt))) \<longrightarrow>
      start (run cs (new_TaskInstanceState body fmt gde dbg pt)) =
        Ok (run cs (new_TaskInstanceState body fmt gde dbg pt))
      \<and> start (run ds (run cs (new_TaskInstanceState body fmt gde dbg pt))) =
        Ok (run ds (run cs (new_TaskInstanceState body fmt gde dbg pt))))"
proof (intro conjI impI)
  assume f: "isFinished (state s)"
  show "cancel r s = Ok s" using f by (rule finished_cancel)
  show "proceedChecked i k v s = s" using f by (rule finished_proceedChecked)
  show "proceedSync k v s = Ok s" using f by (rule finished_proceedSync)
  have st: "settled s (run cs s)" using f by (rule settled_run)
  then have eq: "(state (run cs s))\<lparr>hasStarted := True\<rparr> = (state s)\<lparr>hasStarted := True\<rparr>"
    by (simp add: settled_def)
  show "isFinished (state (run cs s))" using st by (simp add: settled_def)
  show "index (run cs s) = index s" using st by (simp add: settled_def)
  show "terminal_events (run cs s) = terminal_events s" using st by (simp add: settled_def)
  show "completionState (state (run cs s)) = completionState (state s)"
    using arg_cong [OF eq, of completionState] by simp
  show "isSuccessful (state (run cs s)) = isSuccessful (state s)"
    using arg_cong [OF eq, of isSuccessful] by simp
  show "isError (state (run cs s)) = isError (state s)"
    using arg_cong [OF eq, of isError] by simp
  show "isCanceled (state (run cs s)) = isCanceled (state s)"
    using arg_cong [OF eq, of isCanceled] by simp
  show "state_value (state (run cs s)) = state_value (state s)"
    using arg_cong [OF eq, of state_value] by simp
  show "state_error (state (run cs s)) = state_error (state s)"
    using arg_cong [OF eq, of state_error] by simp
next
  assume "isFinished (state s)" and "hasStarted (state s) \<or> cancelRequest s \<noteq> None"
  then show "start s = Ok s" by (auto simp: finished_start)
next
  show "length (terminal_events (run cs (new_TaskInstanceState body fmt gde dbg pt))) =
        (if isFinished (state (run cs (new_TaskInstanceState body fmt gde dbg pt))) then 1 else 0)"
    by (rule one_outcome_run) simp
next
  let ?s = "run cs (new_TaskInstanceState body fmt gde dbg pt)"
  assume h: "list_all lawful cs \<and> isFinished (state ?s)"
  then have c: "committed ?s" by (simp add: lawful_finished_committed)
  with h show "start ?s = Ok ?s" by (auto simp: finished_start committed_def)
  have "committed (run ds ?s)" using c by (rule committed_run)
  moreover have "isFinished (state (run ds ?s))"
    using settled_run [of ?s ds] h by (simp add: settled_def)
  ultimately show "start (run ds ?s) = Ok (run ds ?s)"
    by (auto simp: finished_start committed_def)
qed

theorem finished_is_final_witness:
  "list_all lawful [Call_start, Run_async 0, Run_async 0]
   \<and> isFinished (state example_finished) \<and> hasStarted (state example_finished)
   \<and> cancel JNull example_finished = Ok example_finished
   \<and> proceedChecked 5 YIELDABLE_CONTINUE JNull example_finished = example_finished
   \<and> start example_finished = Ok example_finished
   \<and> start (run [Call_cancel JNull, Call_promise] example_finished) =
        Ok (run [Call_cancel JNull, Call_promise] example_finished)
   \<and> terminal_events (run [Call_start, Call_onFinalize (HostCallback 1)] example_finished)
        = [Delegate_onSuccess]
   \<and> length (terminal_events example_finished) = 1"
proof -
  have a: "isFinished (state example_finished)" "hasStarted (state example_finished)"
    "terminal_events example_finished = [Delegate_onSuccess]"
    by (simp_all add: example_finished_def example_defs engine_defs terminal_events_def)
  have w: "list_all lawful [Call_start, Run_async 0, Run_async 0]" by simp
  note t = finished_is_final [where s = example_finished and r = JNull and i = 5
      and k = YIELDABLE_CONTINUE and v = JNull
      and cs = "[Call_start, Call_onFinalize (HostCallback 1)]"]
  note t1 = t [THEN conjunct1, rule_format, OF a(1)]
  note u = finished_is_final [where cs = "[Call_start, Run_async 0, Run_async 0]"
      and ds = "[Call_cancel JNull, Call_promise]"
      and body = example_body and fmt = "\<lambda>r. ''canceled''" and gde = False and dbg = False
      and pt = PERFORM_TYPE_DEFAULT]
  have f: "isFinished (state (run [Call_start, Run_async 0, Run_async 0]
      (new_TaskInstanceState example_body (\<lambda>r. ''canceled'') False False PERFORM_TYPE_DEFAULT)))"
    using a(1) by (simp add: example_finished_def example_instance_def)
  have s: "start example_finished = Ok example_finished
      \<and> start (run [Call_cancel JNull, Call_promise] example_finished) =
            Ok (run [Call_cancel JNull, Call_promise] example_finished)"
    using u [THEN conjunct2, THEN conjunct2, rule_format, OF conjI [OF w f]]
    by (simp add: example_finished_def example_instance_def)
  have l: "length (terminal_events example_finished) = 1"
    using u [THEN conjunct2, THEN conjunct1] a(1)
    by (simp add: example_finished_def example_instance_def)
  show ?thesis using a t1 s l w by simp
qed

subsection \<open>Cancelling before the start\<close>

lemma projections_upd [simp]:
  "terminal_events (s\<lparr>generatorState := xge14\<rparr>) = terminal_events s"
  "terminal_events (s\<lparr>state := xst5\<rparr>) = terminal_events s"
  "terminal_events (s\<lparr>index := xin5\<rparr>) = terminal_events s"
  "terminal_events (s\<lparr>disposers := xdi9\<rparr>) = terminal_events s"
  "terminal_events (s\<lparr>finalizeCallbacks := xfi17\<rparr>) = terminal_events s"
  "terminal_events (s\<lparr>cancelRequest := xca13\<rparr>) = terminal_events s"
  "terminal_events (s\<lparr>has_defer := xha9\<rparr>) = terminal_events s"
  "terminal_events (s\<lparr>asyncErrorsHandled := xas18\<rparr>) = terminal_events s"
  "terminal_events (s\<lparr>expectsLinkedYield := xex18\<rparr>) = terminal_events s"
  "terminal_events (s\<lparr>asyncQueue := xas10\<rparr>) = terminal_events s"
  "callback_calls (s\<lparr>generatorState := xge14\<rparr>) = callback_calls s"
  "callback_calls (s\<lparr>state := xst5\<rparr>) = callback_calls s"
  "callback_calls (s\<lparr>index := xin5\<rparr>) = callback_calls s"
  "callback_calls (s\<lparr>disposers := xdi9\<rparr>) = callback_calls s"
  "callback_calls (s\<lparr>finalizeCallbacks := xfi17\<rparr>) = callback_calls s"
  "callback_calls (s\<lparr>cancelRequest := xca13\<rparr>) = callback_calls s"
  "callback_calls (s\<lparr>has_defer := xha9\<rparr>) = callback_calls s"
  "callback_calls (s\<lparr>asyncErrorsHandled := xas18\<rparr>) = callback_calls s"
  "callback_calls (s\<lparr>expectsLinkedYield := xex18\<rparr>) = callback_calls s"
  "callback_calls (s\<lparr>asyncQueue := xas10\<rparr>) = callback_calls s"
  "unhandled_reports (s\<lparr>generatorState := xge14\<rparr>) = unhandled_reports s"
  "unhandled_reports (s\<lparr>state := xst5\<rparr>) = unhandled_reports s"
  "unhandled_reports (s\<lparr>index := xin5\<rparr>) = unhandled_reports s"
  "unhandled_reports (s\<lparr>disposers := xdi9\<rparr>) = unhandled_reports s"
  "unhandled_reports (s\<lparr>finalizeCallbacks := xfi17\<rparr>) = unhandled_reports s"
  "unhandled_reports (s\<lparr>cancelRequest := xca13\<rparr>) = unhandled_reports s"
  "unhandled_reports (s\<lparr>has_defer := xha9\<rparr>) = unhandled_reports s"
  "unhandled_reports (s\<lparr>asyncErrorsHandled := xas18\<rparr>) = unhandled_reports s"
  "unhandled_reports (s\<lparr>expectsLinkedYield := xex18\<rparr>) = unhandled_reports s"
  "unhandled_reports (s\<lparr>asyncQueue := xas10\<rparr>) = unhandled_reports s"
  "body_steps (s\<lparr>generatorState := xge14\<rparr>) = body_steps s"
  "body_steps (s\<lparr>state := xst5\<rparr>) = body_steps s"
  "body_steps (s\<lparr>index := xin5\<rparr>) = body_steps s"
  "body_steps (s\<lparr>disposers := xdi9\<rparr>) = body_steps s"
  "body_steps (s\<lparr>finalizeCallbacks := xfi17\<rparr>) = body_steps s"
  "body_steps (s\<lparr>cancelRequest := xca13\<rparr>) = body_steps s"
  "body_steps (s\<lparr>has_defer := xha9\<rparr>) = body_steps s"
  "body_steps (s\<lparr>asyncErrorsHandled := xas18\<rparr>) = body_steps s"
  "body_steps (s\<lparr>expectsLinkedYield := xex18\<rparr>) = body_steps s"
  "body_steps (s\<lparr>asyncQueue := xas10\<rparr>) = body_steps s"
  by (simp_all add: terminal_events_def callback_calls_def unhandled_reports_def body_steps_def)

lemma finalized_more_fields [simp]:
  "body_steps (finalized fs s) = body_steps s"
  by (simp add: body_steps_def)

lemma cancel_logged_fields [simp]:
  "generatorState (cancel_logged r s) = generatorState s"
  "body_steps (cancel_logged r s) = body_steps s"
  "asyncQueue (cancel_logged r s) = asyncQueue s"
  "asyncErrorsHandled (cancel_logged r s) = asyncErrorsHandled s"
  "terminal_events (cancel_logged r s) = terminal_events s"
  by (simp_all add: cancel_logged_def)

lemma rerun_thunks_cancel [simp]: "rerun_thunks (finishing (cancel_fields r s0) s) = []"
proof -
  have "unhandled_thunks (finishing (cancel_fields r s0) s) = []"
    by (simp add: unhandled_thunks_def cancel_fields_def Object_assign_def)
  then show ?thesis by (rule rerun_thunks_kind(2))
qed

lemma asyncQueue_finalized_cancel: "asyncQueue (finalized (cancel_fields r s0) s) = asyncQueue s"
  by simp

lemma state_finalized_cancel:
  "state (finalized (cancel_fields r s0) s) =
     (state s)\<lparr>isCanceled := True, completionState := Some COMPLETION_CANCEL,
       state_error := JError TASK_CANCELATION_NAME (formatCancelReason s0 (reason r)),
       cancelReason := Some (formatCancelReason s0 (reason r)), isFinished := True\<rparr>"
  by (simp add: cancel_fields_def Object_assign_def)

lemma cancel_unstarted:
  assumes "fst (requestCancel (CancelRequest CANCEL_KIND_EXPLICIT r) s)"
    and "\<not> hasStarted (state s)"
  shows "cancel r s =
     Ok (emit (Delegate_onCancel r)
           (finalized
              (cancel_fields (CancelRequest CANCEL_KIND_EXPLICIT r) s)
              (cancel_logged (CancelRequest CANCEL_KIND_EXPLICIT r)
                 (s\<lparr>cancelRequest := Some (CancelRequest CANCEL_KIND_EXPLICIT r)\<rparr>))))"
proof -
  let ?q = "CancelRequest CANCEL_KIND_EXPLICIT r"
  let ?s1 = "s\<lparr>cancelRequest := Some ?q\<rparr>"
  from assms(1) have acc: "cancelRequest s = None \<and> \<not> isFinished (state s)"
    by (simp add: requestCancel_def split: if_splits)
  have "cancelRequest ?s1 = Some ?q" by simp
  then have "finalizeWithCancel ?s1
      = Ok (emit (Delegate_onCancel (reason ?q)) (finalized (cancel_fields ?q ?s1) (cancel_logged ?q ?s1)))"
    by (rule finalizeWithCancel_eq)
  moreover have "cancel_fields ?q ?s1 = cancel_fields ?q s" by (simp add: cancel_fields_def)
  ultimately show ?thesis using acc assms(2)
    by (simp add: cancel_def requestCancel_def)
qed

text \<open>
  C5. If \<^verbatim>\<open>cancel(reason)\<close> is called on an instance that has not started and the request
  is accepted, the instance finalizes at once with the cancel outcome; the generator is not
  stepped by the call, nothing is scheduled, and nothing that is called later steps it.
\<close>
theorem cancel_before_start_never_steps:
  "fst (requestCancel (CancelRequest CANCEL_KIND_EXPLICIT r) s) \<and> \<not> hasStarted (state s) \<longrightarrow>
     returned (cancel r s)
     \<and> isFinished (state (instance_of (cancel r s)))
     \<and> isCanceled (state (instance_of (cancel r s)))
     \<and> completionState (state (instance_of (cancel r s))) = Some COMPLETION_CANCEL
     \<and> terminal_events (instance_of (cancel r s)) = terminal_events s @ [Delegate_onCancel r]
     \<and> generatorState (instance_of (cancel r s)) = generatorState s
     \<and> body_steps (instance_of (cancel r s)) = body_steps s
     \<and> asyncQueue (instance_of (cancel r s)) = asyncQueue s
     \<and> generatorState (run cs (instance_of (cancel r s))) = generatorState s
     \<and> body_steps (run cs (instance_of (cancel r s))) = body_steps s"
proof (intro impI conjI)
  assume h: "fst (requestCancel (CancelRequest CANCEL_KIND_EXPLICIT r) s) \<and> \<not> hasStarted (state s)"
  note e = cancel_unstarted [OF h [THEN conjunct1] h [THEN conjunct2]]
  show "returned (cancel r s)" by (simp add: e)
  show f: "isFinished (state (instance_of (cancel r s)))" by (simp add: e)
  show "isCanceled (state (instance_of (cancel r s)))"
    by (simp add: e cancel_fields_def Object_assign_def)
  show "completionState (state (instance_of (cancel r s))) = Some COMPLETION_CANCEL"
    by (simp add: e cancel_fields_def Object_assign_def)
  show "terminal_events (instance_of (cancel r s)) = terminal_events s @ [Delegate_onCancel r]"
    by (simp add: e)
  show g: "generatorState (instance_of (cancel r s)) = generatorState s" by (simp add: e)
  show b: "body_steps (instance_of (cancel r s)) = body_steps s" by (simp add: e)
  show "asyncQueue (instance_of (cancel r s)) = asyncQueue s" by (simp add: e)
  have st: "settled (instance_of (cancel r s)) (run cs (instance_of (cancel r s)))"
    using f by (rule settled_run)
  show "generatorState (run cs (instance_of (cancel r s))) = generatorState s"
    using st g by (simp add: settled_def)
  show "body_steps (run cs (instance_of (cancel r s))) = body_steps s"
    using st b by (simp add: settled_def)
qed

theorem cancel_before_start_never_steps_witness:
  "fst (requestCancel (CancelRequest CANCEL_KIND_EXPLICIT (JStr ''stop'')) example_instance)
   \<and> \<not> hasStarted (state example_instance)
   \<and> isCanceled (state (instance_of (cancel (JStr ''stop'') example_instance)))
   \<and> body_steps (run [Call_start, Call_proceedChecked 2 YIELDABLE_CONTINUE JNull, Run_async 0]
        (instance_of (cancel (JStr ''stop'') example_instance))) = []"
proof -
  have a: "fst (requestCancel (CancelRequest CANCEL_KIND_EXPLICIT (JStr ''stop'')) example_instance)
      \<and> \<not> hasStarted (state example_instance)"
    by (simp add: example_instance_def new_TaskInstanceState_def requestCancel_def
        INITIAL_STATE_def)
  have b: "body_steps example_instance = []"
    by (simp add: example_instance_def new_TaskInstanceState_def body_steps_def)
  show ?thesis
    using cancel_before_start_never_steps [of "JStr ''stop''" example_instance
        "[Call_start, Call_proceedChecked 2 YIELDABLE_CONTINUE JNull, Run_async 0]",
        rule_format, OF a] a b
    by simp
qed

subsection \<open>Finalize callbacks\<close>

lemma accounted_inert:
  "callbacks_accounted pre s \<Longrightarrow> list_all inert (registered pre) \<Longrightarrow>
   list_all inert (finalizeCallbacks s)"
proof -
  assume a: "callbacks_accounted pre s" and i: "list_all inert (registered pre)"
  from a have "callback_calls s @ map FinalizeCallback_called (finalizeCallbacks s) =
        map FinalizeCallback_called (registered pre)"
    by (simp add: callbacks_accounted_def)
  then have "set (map FinalizeCallback_called (finalizeCallbacks s))
        \<subseteq> set (map FinalizeCallback_called (registered pre))"
    by (metis set_append sup_ge2)
  then have "set (finalizeCallbacks s) \<subseteq> set (registered pre)" by auto
  with i show ?thesis by (auto simp: list_all_iff)
qed

lemma accounted_exec:
  assumes a: "callbacks_accounted pre s" and i: "list_all inert (registered (pre @ [c]))"
  shows "callbacks_accounted (pre @ [c]) (exec c s)"
proof (cases "isFinished (state s)")
  case True
  with a have e: "finalizeCallbacks s = []"
    and m: "callback_calls s = map FinalizeCallback_called (registered pre)"
    by (auto simp: callbacks_accounted_def)
  have ic: "list_all inert (registered [c])" using i by (simp add: registered_append)
  have f': "isFinished (state (exec c s))"
    using settled_exec [OF True, of c] by (simp add: settled_def)
  from finished_exec_callbacks [OF True e ic] m f' show ?thesis
    by (simp add: callbacks_accounted_def registered_append)
next
  case False
  with a have n: "callback_calls s = []"
    and m: "map FinalizeCallback_called (finalizeCallbacks s)
              = map FinalizeCallback_called (registered pre)"
    by (auto simp: callbacks_accounted_def)
  have "list_all inert (registered pre)" using i by (simp add: registered_append)
  with a have il: "list_all inert (finalizeCallbacks s)" by (rule accounted_inert)
  have p: "progressed c s (exec c s)" using False by (rule unfinished_exec)
  show ?thesis
  proof (cases "isFinished (state (exec c s))")
    case True
    with p n m il show ?thesis
      by (simp add: progressed_def callbacks_accounted_def registered_append)
  next
    case False
    with p n m il show ?thesis
      by (simp add: progressed_def callbacks_accounted_def registered_append)
  qed
qed

lemma accounted_run:
  "callbacks_accounted pre s \<Longrightarrow> list_all inert (registered (pre @ cs)) \<Longrightarrow>
   callbacks_accounted (pre @ cs) (run cs s)"
proof (induction cs arbitrary: pre s)
  case Nil then show ?case by simp
next
  case (Cons c cs)
  have "registered (c # cs) = registered [c] @ registered cs"
    using registered_append [of "[c]" cs] by simp
  then have i1: "list_all inert (registered (pre @ [c]))"
    using Cons.prems(2) by (simp add: registered_append)
  have i2: "list_all inert (registered ((pre @ [c]) @ cs))"
    using Cons.prems(2) by simp
  from Cons.prems(1) i1 have "callbacks_accounted (pre @ [c]) (exec c s)" by (rule accounted_exec)
  then have "callbacks_accounted ((pre @ [c]) @ cs) (run cs (exec c s))"
    using i2 by (rule Cons.IH)
  then show ?case by simp
qed

lemma accounted_new: "callbacks_accounted [] (new_TaskInstanceState body fmt gde dbg pt)"
  by (simp add: callbacks_accounted_def)

lemma dispatch_fields [simp]:
  "callback_calls (instance_of (dispatchFinalizeEvents cs s)) = callback_calls s"
  "finalizeCallbacks (instance_of (dispatchFinalizeEvents cs s)) = finalizeCallbacks s"
  by (simp_all add: dispatchFinalizeEvents_def split: option.splits completion.splits)

text \<open>
  Callbacks that only return are called exactly once each. \<^verbatim>\<open>onFinalize(cb)\<close> on a finished
  instance calls such a \<^verbatim>\<open>cb\<close> at once, exactly once, and leaves the list empty; on an
  unfinished instance it appends \<^verbatim>\<open>cb\<close> to the list and calls nothing. Finalization calls
  the callbacks of the list in order and clears it. Hence, from the construction on, when
  every registered callback only returns: while the instance is unfinished no callback has
  been called and the list holds the registered callbacks in registration order; once it is
  finished the calls made are exactly the registered callbacks, once per registration, in
  registration order, and the list is empty.
\<close>

lemma inert_callbacks_run_once_in_order:
  "(isFinished (state s) \<and> finalizeCallbacks s = [] \<and> inert cb \<longrightarrow>
      callback_calls (onFinalize cb s) = callback_calls s @ [FinalizeCallback_called cb]
      \<and> finalizeCallbacks (onFinalize cb s) = [])
   \<and> (\<not> isFinished (state s) \<longrightarrow>
      onFinalize cb s = s\<lparr>finalizeCallbacks := finalizeCallbacks s @ [cb]\<rparr>)
   \<and> (list_all inert (finalizeCallbacks s) \<longrightarrow>
      callback_calls (instance_of (finalizeShared fs s)) =
        callback_calls s @ map FinalizeCallback_called (finalizeCallbacks s))
   \<and> finalizeCallbacks (instance_of (finalizeShared fs s)) = []
   \<and> (list_all inert (registered cs) \<longrightarrow>
       (if isFinished (state (run cs (new_TaskInstanceState body fmt gde dbg pt)))
        then callback_calls (run cs (new_TaskInstanceState body fmt gde dbg pt)) =
               map FinalizeCallback_called (registered cs)
             \<and> finalizeCallbacks (run cs (new_TaskInstanceState body fmt gde dbg pt)) = []
        else callback_calls (run cs (new_TaskInstanceState body fmt gde dbg pt)) = []
             \<and> finalizeCallbacks (run cs (new_TaskInstanceState body fmt gde dbg pt)) =
                 registered cs))"
proof (intro conjI impI)
  assume h: "isFinished (state s) \<and> finalizeCallbacks s = [] \<and> inert cb"
  have i: "list_all inert (registered [Call_onFinalize cb])" using h by simp
  from finished_exec_callbacks [OF h [THEN conjunct1] h [THEN conjunct2, THEN conjunct1] i]
  show "callback_calls (onFinalize cb s) = callback_calls s @ [FinalizeCallback_called cb]"
    and "finalizeCallbacks (onFinalize cb s) = []"
    by (simp_all add: exec_def)
next
  assume "\<not> isFinished (state s)"
  then show "onFinalize cb s = s\<lparr>finalizeCallbacks := finalizeCallbacks s @ [cb]\<rparr>"
    by (rule unfinished_onFinalize)
next
  assume "list_all inert (finalizeCallbacks s)"
  then show "callback_calls (instance_of (finalizeShared fs s)) =
        callback_calls s @ map FinalizeCallback_called (finalizeCallbacks s)"
    by (simp add: finalizeShared_eq)
next
  show "finalizeCallbacks (instance_of (finalizeShared fs s)) = []"
    by (simp add: finalizeShared_eq)
next
  assume i: "list_all inert (registered cs)"
  have "callbacks_accounted ([] @ cs) (run cs (new_TaskInstanceState body fmt gde dbg pt))"
    using accounted_new by (rule accounted_run) (simp add: i)
  then show "if isFinished (state (run cs (new_TaskInstanceState body fmt gde dbg pt)))
       then callback_calls (run cs (new_TaskInstanceState body fmt gde dbg pt)) =
              map FinalizeCallback_called (registered cs)
            \<and> finalizeCallbacks (run cs (new_TaskInstanceState body fmt gde dbg pt)) = []
       else callback_calls (run cs (new_TaskInstanceState body fmt gde dbg pt)) = []
            \<and> finalizeCallbacks (run cs (new_TaskInstanceState body fmt gde dbg pt)) =
                registered cs"
    by (auto simp: callbacks_accounted_def inj_on_def)
qed

lemma inert_callbacks_run_once_in_order_example:
  "list_all inert (registered example_calls)
   \<and> isFinished (state (run example_calls example_instance))
   \<and> callback_calls (run example_calls example_instance) =
       [FinalizeCallback_called (HostCallback 1), FinalizeCallback_called (HostCallback 2),
        FinalizeCallback_called (HostCallback 3)]
   \<and> finalizeCallbacks (run example_calls example_instance) = []"
proof -
  have i: "list_all inert (registered example_calls)" by (simp add: example_calls_def)
  have f: "isFinished (state (run example_calls example_instance))"
    by (simp add: example_calls_def example_defs engine_defs)
  note t = inert_callbacks_run_once_in_order [where cs = example_calls
      and body = example_body and fmt = "\<lambda>r. ''canceled''" and gde = False and dbg = False
      and pt = PERFORM_TYPE_DEFAULT]
  have a: "callback_calls (run example_calls example_instance) =
       map FinalizeCallback_called (registered example_calls)
       \<and> finalizeCallbacks (run example_calls example_instance) = []"
    using t [THEN conjunct2, THEN conjunct2, THEN conjunct2, THEN conjunct2, rule_format, OF i] f
    by (simp add: example_instance_def)
  show ?thesis using i f a by (simp add: example_calls_def)
qed

text \<open>
  C8. A finalize callback registered before the instance finishes is to run exactly once at
  finalization, and no callback ever twice. The code calls a callback twice when the
  callback itself calls \<^verbatim>\<open>onFinalize\<close>: \<^verbatim>\<open>finalizeShared\<close> sets \<^verbatim>\<open>isFinished\<close> before it
  calls \<^verbatim>\<open>runFinalizeCallbacks\<close>, and \<^verbatim>\<open>runFinalizeCallbacks\<close> resets the list only after its
  \<^verbatim>\<open>forEach\<close>. So when a callback \<open>A\<close>, registered once, registers a callback \<open>B\<close> the first
  time it is called, \<^verbatim>\<open>onFinalize\<close> finds the instance finished and runs the list, which
  then is \<open>A, B\<close>: the calls are \<open>A, A, B\<close>. Here the instance is the example, \<open>A\<close> is
  registered before the start, and the instance finishes on the second turn of the
  environment.
\<close>

theorem finalize_callback_called_twice:
  "registered example_reentrant_calls = [example_registering]
   \<and> \<not> isFinished (state (run [Call_onFinalize example_registering] example_instance))
   \<and> finalizeCallbacks (run [Call_onFinalize example_registering] example_instance) =
        [example_registering]
   \<and> isFinished (state (run example_reentrant_calls example_instance))
   \<and> callback_calls (run example_reentrant_calls example_instance) =
        [FinalizeCallback_called example_registering,
         FinalizeCallback_called example_registering,
         FinalizeCallback_called (HostCallback 2)]
   \<and> finalizeCallbacks (run example_reentrant_calls example_instance) = []"
  by (simp add: example_reentrant_calls_def example_registering_def example_defs engine_defs
      callback_calls_def)

subsection \<open>A yielded child does not report its error as unhandled\<close>

lemma handled_exec:
  assumes h: "asyncErrorsHandled s"
  shows "asyncErrorsHandled (exec c s) \<and> unhandled_reports (exec c s) = unhandled_reports s"
proof (cases "isFinished (state s)")
  case True
  then show ?thesis using h by (rule finished_exec_handled)
next
  case False
  then have "progressed c s (exec c s)" by (rule unfinished_exec)
  with h show ?thesis by (simp add: progressed_def)
qed

lemma handled_run:
  "asyncErrorsHandled s \<Longrightarrow>
   asyncErrorsHandled (run cs s) \<and> unhandled_reports (run cs s) = unhandled_reports s"
proof (induction cs arbitrary: s)
  case Nil then show ?case by simp
next
  case (Cons c cs)
  from handled_exec [OF Cons.prems, of c] Cons.IH [of "exec c s"] show ?case by simp
qed

lemma handled_onYielded:
  "asyncErrorsHandled (snd (onYielded p i s))
   \<and> unhandled_reports (snd (onYielded p i s)) = unhandled_reports s"
  by (simp add: onYielded_def onFinalize_unfold Let_def unhandled_reports_def)

text \<open>
  C10. After \<^verbatim>\<open>onYielded\<close>, the instance never reports its error as unhandled: the flag
  \<^verbatim>\<open>asyncErrorsHandled\<close> is set and stays set whatever is called later, so
  \<^verbatim>\<open>maybeThrowUnhandledTaskErrorLater\<close> schedules nothing, a closure it scheduled earlier
  reports nothing, and no call of \<^verbatim>\<open>env.reportUncaughtRejection\<close> from that closure is ever
  added to the events.
\<close>
theorem yielded_child_reports_nothing_unhandled:
  "asyncErrorsHandled (snd (onYielded p i s))
   \<and> unhandled_reports (snd (onYielded p i s)) = unhandled_reports s
   \<and> asyncErrorsHandled (run cs (snd (onYielded p i s)))
   \<and> unhandled_reports (run cs (snd (onYielded p i s))) = unhandled_reports s
   \<and> maybeThrowUnhandledTaskErrorLater (run cs (snd (onYielded p i s))) =
        run cs (snd (onYielded p i s))
   \<and> run_thunk ReportUnhandledThunk (run cs (snd (onYielded p i s))) =
        Ok (run cs (snd (onYielded p i s)))"
proof -
  have a: "asyncErrorsHandled (snd (onYielded p i s))"
    and b: "unhandled_reports (snd (onYielded p i s)) = unhandled_reports s"
    using handled_onYielded [of p i s] by simp_all
  from handled_run [OF a, of cs] b
  have c: "asyncErrorsHandled (run cs (snd (onYielded p i s)))"
    and d: "unhandled_reports (run cs (snd (onYielded p i s))) = unhandled_reports s"
    by simp_all
  show ?thesis using a b c d by (simp add: maybeThrowUnhandledTaskErrorLater_def)
qed

theorem yielded_child_reports_nothing_unhandled_witness:
  "completionState (state example_failed) = Some COMPLETION_ERROR
   \<and> asyncQueue example_failed = [ReportUnhandledThunk]
   \<and> unhandled_reports (run [Run_async 0] example_failed) =
        [Env_reportUncaughtRejection AtUnhandledTaskError (JStr ''oops'')]
   \<and> unhandled_reports (run [Run_async 0] (snd (onYielded 0 2 example_failed))) = []"
proof -
  have a: "completionState (state example_failed) = Some COMPLETION_ERROR"
    "asyncQueue example_failed = [ReportUnhandledThunk]"
    "unhandled_reports example_failed = []"
    "unhandled_reports (run [Run_async 0] example_failed) =
        [Env_reportUncaughtRejection AtUnhandledTaskError (JStr ''oops'')]"
    by (simp_all add: example_failed_def example_failing_def example_failing_body_def
        engine_defs unhandled_reports_def)
  show ?thesis
    using yielded_child_reports_nothing_unhandled [of 0 2 example_failed "[Run_async 0]"] a
    by simp
qed

end
